theory Spec2Isabelle
  imports Main
begin

section \<open>Python values\<close>

text \<open>
  The module \<^verbatim>\<open>moldesign/utils/json_extension.py\<close> subclasses the encoder of Python's
  standard \<^verbatim>\<open>json\<close> module and wraps \<^verbatim>\<open>json.dump\<close> and \<^verbatim>\<open>json.dumps\<close>.
  The values handed to it are modelled as finite trees of the types the standard encoder
  writes by itself (\<^verbatim>\<open>None\<close>, \<^verbatim>\<open>bool\<close>, \<^verbatim>\<open>int\<close>, \<^verbatim>\<open>str\<close>, \<^verbatim>\<open>list\<close>, \<^verbatim>\<open>tuple\<close>,
  \<^verbatim>\<open>dict\<close>), with two more constructors. \<open>PObj i\<close> is a reference to an object of any other
  type, known by its identity \<open>i\<close>. \<open>PSub i v\<close> is the object \<open>i\<close> of a class derived from
  \<^verbatim>\<open>int\<close>, \<^verbatim>\<open>str\<close>, \<^verbatim>\<open>list\<close>, \<^verbatim>\<open>tuple\<close> or \<^verbatim>\<open>dict\<close>, holding what the value \<open>v\<close> of that type
  holds: the encoder goes by \<^verbatim>\<open>isinstance\<close> and takes it for \<open>v\<close>, while its class may give it
  attributes that the built-in types do not have (\<^verbatim>\<open>None\<close> and \<^verbatim>\<open>bool\<close> have no subclasses,
  and an object of a class derived from any other class is a \<open>PObj\<close>).
  What an object answers to \<^verbatim>\<open>hasattr(obj, 'to_json')\<close> and to \<^verbatim>\<open>obj.to_json()\<close> is kept in
  a table indexed by identity, so that a conversion may return the object itself, an
  object met before, or a fresh object every time.

  Not modelled: \<^verbatim>\<open>float\<close> (and with it the option \<^verbatim>\<open>allow_nan\<close>), code points above 255
  in text, and lists or dicts that contain themselves. The library is read as in
  Python 3 (\<^verbatim>\<open>Lib/json/__init__.py\<close>, \<^verbatim>\<open>Lib/json/encoder.py\<close>).
\<close>

type_synonym oid = nat

datatype pykey = KStr string | KInt int | KBool bool | KNone | KBytes string

datatype pyval =
    PNone
  | PBool bool
  | PInt int
  | PStr string
  | PList "pyval list"
  | PTuple "pyval list"
  | PDict "(pykey \<times> pyval) list"
  | PObj oid
  | PSub oid pyval

text \<open>
  Exceptions, by what raises them: \<open>NotSerializable\<close> is the \<^verbatim>\<open>TypeError\<close> of
  \<^verbatim>\<open>json.JSONEncoder.default\<close> ("Object of type ... is not JSON serializable"),
  \<open>CircularReference\<close> the \<^verbatim>\<open>ValueError\<close> "Circular reference detected", \<open>BadKey\<close> the
  \<^verbatim>\<open>TypeError\<close> for a dict key of an unsupported type, \<open>Unorderable\<close> the \<^verbatim>\<open>TypeError\<close>
  of \<^verbatim>\<open>sorted\<close> on keys that do not compare, \<open>NotCallable\<close> the \<^verbatim>\<open>TypeError\<close> of calling
  an attribute that is not callable, \<open>DuplicateKeyword\<close> the \<^verbatim>\<open>TypeError\<close> "got multiple
  values for keyword argument", \<open>AttributeError\<close> a missing attribute, and
  \<open>UserException\<close> whatever a \<^verbatim>\<open>to_json\<close> method or a caller's hook raises.
\<close>

datatype exn =
    NotSerializable
  | CircularReference
  | BadKey
  | Unorderable
  | NotCallable
  | DuplicateKeyword
  | AttributeError
  | UserException string

text \<open>
  The \<^verbatim>\<open>to_json\<close> attribute of an object: absent, present but not callable, a method
  that returns a value, or a method that raises.
\<close>

datatype to_json_attr = Absent | NonCallable | Returns pyval | Raises exn

type_synonym objects = "oid \<Rightarrow> to_json_attr"

type_synonym hook = "pyval \<Rightarrow> exn + pyval"

section \<open>The encoder hook of the module\<close>

text \<open>
  \<^verbatim>\<open>hasattr(obj, 'to_json')\<close>: the built-in types themselves have no such attribute; an
  object of any other class has what its class or the object itself defines, also when
  the class derives from a built-in type.
\<close>

definition hasattr_to_json :: "objects \<Rightarrow> pyval \<Rightarrow> bool" where
  "hasattr_to_json A obj =
     (case obj of
        PObj i \<Rightarrow> A i \<noteq> Absent
      | PSub i v \<Rightarrow> A i \<noteq> Absent
      | _ \<Rightarrow> False)"

text \<open>\<^verbatim>\<open>obj.to_json()\<close>: attribute lookup, then the call.\<close>

definition call_attr :: "to_json_attr \<Rightarrow> exn + pyval" where
  "call_attr a =
     (case a of
        Absent \<Rightarrow> Inl AttributeError
      | NonCallable \<Rightarrow> Inl NotCallable
      | Returns r \<Rightarrow> Inr r
      | Raises e \<Rightarrow> Inl e)"

definition call_to_json :: "objects \<Rightarrow> pyval \<Rightarrow> exn + pyval" where
  "call_to_json A obj =
     (case obj of
        PObj i \<Rightarrow> call_attr (A i)
      | PSub i v \<Rightarrow> call_attr (A i)
      | _ \<Rightarrow> Inl AttributeError)"

text \<open>
  \<^verbatim>\<open>
  class JsonEncoder(json.JSONEncoder):
      def default(self, obj):
          if hasattr(obj, 'to_json'):
              obj = obj.to_json()
          return obj
  \<close>
\<close>

definition JsonEncoder_default :: "objects \<Rightarrow> hook" where
  "JsonEncoder_default A obj =
     (if hasattr_to_json A obj then call_to_json A obj else Inr obj)"

text \<open>The method it overrides, \<^verbatim>\<open>json.JSONEncoder.default\<close>, always raises.\<close>

definition JSONEncoder_default :: hook where
  "JSONEncoder_default obj = Inl NotSerializable"

section \<open>The standard encoder\<close>

subsection \<open>Text of leaves\<close>

definition hexdigit :: "nat \<Rightarrow> char" where
  "hexdigit d = ''0123456789abcdef'' ! d"

text \<open>\<^verbatim>\<open>'\\u{0:04x}'.format(ord(c))\<close> for a code point below 256.\<close>

definition escape_u :: "char \<Rightarrow> string" where
  "escape_u c =
     [CHR 0x5C, CHR ''u'', CHR ''0'', CHR ''0'',
      hexdigit ((of_char c :: nat) div 16), hexdigit ((of_char c :: nat) mod 16)]"

text \<open>\<^verbatim>\<open>ESCAPE_DCT\<close>: the short escapes, then every other control character.\<close>

definition escape_dct :: "char \<Rightarrow> string option" where
  "escape_dct c =
     (if c = CHR 0x5C then Some [CHR 0x5C, CHR 0x5C]
      else if c = CHR 0x22 then Some [CHR 0x5C, CHR 0x22]
      else if c = CHR 0x08 then Some [CHR 0x5C, CHR ''b'']
      else if c = CHR 0x0C then Some [CHR 0x5C, CHR ''f'']
      else if c = CHR 0x0A then Some [CHR 0x5C, CHR ''n'']
      else if c = CHR 0x0D then Some [CHR 0x5C, CHR ''r'']
      else if c = CHR 0x09 then Some [CHR 0x5C, CHR ''t'']
      else if (of_char c :: nat) < 0x20 then Some (escape_u c)
      else None)"

definition escape_char :: "char \<Rightarrow> string" where
  "escape_char c = (case escape_dct c of Some e \<Rightarrow> e | None \<Rightarrow> [c])"

definition escape_char_ascii :: "char \<Rightarrow> string" where
  "escape_char_ascii c =
     (case escape_dct c of
        Some e \<Rightarrow> e
      | None \<Rightarrow> if (of_char c :: nat) \<le> 0x7E then [c] else escape_u c)"

definition py_encode_basestring :: "string \<Rightarrow> string" where
  "py_encode_basestring s = CHR 0x22 # concat (map escape_char s) @ [CHR 0x22]"

definition py_encode_basestring_ascii :: "string \<Rightarrow> string" where
  "py_encode_basestring_ascii s = CHR 0x22 # concat (map escape_char_ascii s) @ [CHR 0x22]"

definition digit_char :: "nat \<Rightarrow> char" where
  "digit_char d = ''0123456789'' ! d"

fun digits :: "nat \<Rightarrow> string" where
  "digits n = (if n < 10 then [digit_char n] else digits (n div 10) @ [digit_char (n mod 10)])"

declare digits.simps [simp del]

text \<open>\<^verbatim>\<open>int.__repr__\<close>\<close>

definition int_repr :: "int \<Rightarrow> string" where
  "int_repr i = (if i < 0 then CHR ''-'' # digits (nat (- i)) else digits (nat i))"

subsection \<open>Dict keys\<close>

text \<open>
  The key of an item as text, or \<open>None\<close> for a key the encoder does not accept (it is
  then skipped under \<^verbatim>\<open>skipkeys\<close>, and a \<^verbatim>\<open>TypeError\<close> otherwise).
\<close>

fun key_text :: "pykey \<Rightarrow> string option" where
  "key_text (KStr s) = Some s"
| "key_text (KBool True) = Some ''true''"
| "key_text (KBool False) = Some ''false''"
| "key_text KNone = Some ''null''"
| "key_text (KInt i) = Some (int_repr i)"
| "key_text (KBytes b) = None"

text \<open>
  \<^verbatim>\<open>sorted(dct.items())\<close>: \<^verbatim>\<open>str\<close> compares with \<^verbatim>\<open>str\<close>, \<^verbatim>\<open>int\<close> and \<^verbatim>\<open>bool\<close> with each
  other, \<^verbatim>\<open>bytes\<close> with \<^verbatim>\<open>bytes\<close>; any other pair raises \<^verbatim>\<open>TypeError\<close>.
\<close>

fun str_less :: "string \<Rightarrow> string \<Rightarrow> bool" where
  "str_less [] ys = (ys \<noteq> [])"
| "str_less (x # xs) [] = False"
| "str_less (x # xs) (y # ys) =
     ((of_char x :: nat) < of_char y \<or> (x = y \<and> str_less xs ys))"

fun key_number :: "pykey \<Rightarrow> int option" where
  "key_number (KInt i) = Some i"
| "key_number (KBool b) = Some (if b then 1 else 0)"
| "key_number _ = None"

fun key_less :: "pykey \<Rightarrow> pykey \<Rightarrow> bool option" where
  "key_less (KStr a) (KStr b) = Some (str_less a b)"
| "key_less (KBytes a) (KBytes b) = Some (str_less a b)"
| "key_less a b =
     (case (key_number a, key_number b) of
        (Some i, Some j) \<Rightarrow> Some (i < j)
      | _ \<Rightarrow> None)"

fun all_comparable :: "pykey list \<Rightarrow> bool" where
  "all_comparable [] = True"
| "all_comparable (k # ks) = (list_all (\<lambda>k'. key_less k k' \<noteq> None) ks \<and> all_comparable ks)"

fun insert_item :: "pykey \<times> 'a \<Rightarrow> (pykey \<times> 'a) list \<Rightarrow> (pykey \<times> 'a) list" where
  "insert_item x [] = [x]"
| "insert_item x (y # ys) =
     (if key_less (fst x) (fst y) = Some True then x # y # ys else y # insert_item x ys)"

definition py_sorted :: "(pykey \<times> 'a) list \<Rightarrow> exn + (pykey \<times> 'a) list" where
  "py_sorted items =
     (if all_comparable (map fst items) then Inr (foldr insert_item items [])
      else Inl Unorderable)"

subsection \<open>What a generator has done\<close>

text \<open>
  The encoder is a chain of generators. What one of them does is the text it has
  yielded and the exception that ended it, if any; \<open>None\<close> stands for a recursion that
  has not come to an end within the bound given. \<open>seq\<close> runs one generator after
  another: nothing of the second is seen once the first has raised.
\<close>

type_synonym outcome = "(string \<times> exn option) option"

definition emit :: "string \<Rightarrow> outcome" where
  "emit s = Some (s, None)"

definition raise :: "exn \<Rightarrow> outcome" where
  "raise e = Some ([], Some e)"

fun seq :: "outcome \<Rightarrow> outcome \<Rightarrow> outcome" where
  "seq None r = None"
| "seq (Some (s, Some e)) r = Some (s, Some e)"
| "seq (Some (s, None)) None = None"
| "seq (Some (s, None)) (Some (t, e)) = Some (s @ t, e)"

subsection \<open>The encoder instance\<close>

record encoder =
  enc_skipkeys :: bool
  enc_ensure_ascii :: bool
  enc_check_circular :: bool
  enc_sort_keys :: bool
  enc_indent :: "string option"
  enc_item_separator :: string
  enc_key_separator :: string
  enc_default :: hook

definition encode_str :: "encoder \<Rightarrow> string \<Rightarrow> string" where
  "encode_str E s =
     (if enc_ensure_ascii E then py_encode_basestring_ascii s else py_encode_basestring s)"

text \<open>\<^verbatim>\<open>'\n' + _indent * _current_indent_level\<close>, or nothing without \<^verbatim>\<open>indent\<close>.\<close>

definition newline_indent :: "encoder \<Rightarrow> nat \<Rightarrow> string" where
  "newline_indent E lvl =
     (case enc_indent E of
        None \<Rightarrow> []
      | Some ind \<Rightarrow> CHR 0x0A # concat (replicate lvl ind))"

definition inner_level :: "encoder \<Rightarrow> nat \<Rightarrow> nat" where
  "inner_level E lvl = (case enc_indent E of None \<Rightarrow> lvl | Some ind \<Rightarrow> Suc lvl)"

text \<open>
  The loop of \<^verbatim>\<open>_iterencode_list\<close> over the elements, each already a generator:
  \<open>buf\<close> is \<^verbatim>\<open>'['\<close> (and the first indentation) before the first element and the
  separator before the others.
\<close>

fun join_values :: "string \<Rightarrow> string \<Rightarrow> outcome list \<Rightarrow> outcome" where
  "join_values buf sep [] = emit []"
| "join_values buf sep (r # rs) = seq (emit buf) (seq r (join_values sep sep rs))"

text \<open>
  The loop of \<^verbatim>\<open>_iterencode_dict\<close> over the items: the key is turned into text first
  (skipped or refused when it cannot be), then the separator, the key and the key
  separator are yielded, then the value.
\<close>

fun join_items :: "encoder \<Rightarrow> string \<Rightarrow> bool \<Rightarrow> (pykey \<times> outcome) list \<Rightarrow> outcome" where
  "join_items E sep first [] = emit []"
| "join_items E sep first ((k, r) # krs) =
     (case key_text k of
        None \<Rightarrow> if enc_skipkeys E then join_items E sep first krs else raise BadKey
      | Some ks \<Rightarrow>
          seq (emit ((if first then [] else sep) @ encode_str E ks @ enc_key_separator E))
            (seq r (join_items E sep False krs)))"

subsection \<open>Markers\<close>

text \<open>
  \<^verbatim>\<open>markers\<close> is a dict keyed by \<^verbatim>\<open>id(o)\<close> under \<^verbatim>\<open>check_circular\<close> and \<^verbatim>\<open>None\<close>
  otherwise. An entry is deleted when its object is done, so the entries are the
  objects being encoded around the current one, and they are handed down here as a set.
  The library also makes an entry for every list and dict; the lists and dicts of the
  model are finite trees, never their own ancestors, and their entries are left out.
\<close>

type_synonym markers = "oid set option"

definition marked :: "markers \<Rightarrow> oid \<Rightarrow> bool" where
  "marked M i = (case M of None \<Rightarrow> False | Some ms \<Rightarrow> i \<in> ms)"

definition mark :: "markers \<Rightarrow> oid \<Rightarrow> markers" where
  "mark M i = map_option (insert i) M"

subsection \<open>\<^verbatim>\<open>_iterencode\<close>\<close>

text \<open>
  \<^verbatim>\<open>
  def _iterencode(o, _current_indent_level):
      if isinstance(o, str):            yield _encoder(o)
      elif o is None:                   yield 'null'
      elif o is True:                   yield 'true'
      elif o is False:                  yield 'false'
      elif isinstance(o, int):          yield _intstr(o)
      elif isinstance(o, (list, tuple)): yield from _iterencode_list(o, _current_indent_level)
      elif isinstance(o, dict):         yield from _iterencode_dict(o, _current_indent_level)
      else:
          if markers is not None:
              markerid = id(o)
              if markerid in markers:
                  raise ValueError("Circular reference detected")
              markers[markerid] = o
          o = _default(o)
          yield from _iterencode(o, _current_indent_level)
          if markers is not None:
              del markers[markerid]
  \<close>
  The first argument bounds how many conversions by \<^verbatim>\<open>_default\<close> may be nested. An object
  of a class derived from a built-in type passes the \<^verbatim>\<open>isinstance\<close> test of that type and
  is written as the value it holds (an \<^verbatim>\<open>int\<close> by \<^verbatim>\<open>int.__repr__\<close>): \<^verbatim>\<open>_default\<close> never
  sees it.
\<close>

fun iterencode :: "nat \<Rightarrow> encoder \<Rightarrow> markers \<Rightarrow> nat \<Rightarrow> pyval \<Rightarrow> outcome" where
  "iterencode n E M lvl (PStr s) = emit (encode_str E s)"
| "iterencode n E M lvl PNone = emit ''null''"
| "iterencode n E M lvl (PBool b) = emit (if b then ''true'' else ''false'')"
| "iterencode n E M lvl (PInt i) = emit (int_repr i)"
| "iterencode n E M lvl (PList xs) =
     (if xs = [] then emit ''[]''
      else seq
        (join_values (''['' @ newline_indent E (inner_level E lvl))
           (enc_item_separator E @ newline_indent E (inner_level E lvl))
           (map (iterencode n E M (inner_level E lvl)) xs))
        (emit (newline_indent E lvl @ '']'')))"
| "iterencode n E M lvl (PTuple xs) =
     (if xs = [] then emit ''[]''
      else seq
        (join_values (''['' @ newline_indent E (inner_level E lvl))
           (enc_item_separator E @ newline_indent E (inner_level E lvl))
           (map (iterencode n E M (inner_level E lvl)) xs))
        (emit (newline_indent E lvl @ '']'')))"
| "iterencode n E M lvl (PDict kvs) =
     (if kvs = [] then emit ''{}''
      else seq (emit (''{'' @ newline_indent E (inner_level E lvl)))
        (case (if enc_sort_keys E
               then py_sorted (map (\<lambda>(k, v). (k, iterencode n E M (inner_level E lvl) v)) kvs)
               else Inr (map (\<lambda>(k, v). (k, iterencode n E M (inner_level E lvl) v)) kvs)) of
           Inl e \<Rightarrow> raise e
         | Inr krs \<Rightarrow>
             seq (join_items E (enc_item_separator E @ newline_indent E (inner_level E lvl)) True krs)
               (emit (newline_indent E lvl @ ''}''))))"
| "iterencode n E M lvl (PObj i) =
     (if marked M i then raise CircularReference
      else
        (case enc_default E (PObj i) of
           Inl e \<Rightarrow> raise e
         | Inr o' \<Rightarrow>
             (case n of
                0 \<Rightarrow> None
              | Suc k \<Rightarrow> iterencode k E (mark M i) lvl o')))"
| "iterencode n E M lvl (PSub i v) = iterencode n E M lvl v"

section \<open>\<^verbatim>\<open>json.dumps\<close> and \<^verbatim>\<open>json.dump\<close>\<close>

text \<open>
  The keyword arguments of \<^verbatim>\<open>json.dumps\<close> and \<^verbatim>\<open>json.dump\<close>. \<open>kw_cls\<close> and
  \<open>kw_default\<close> are \<open>None\<close> when the caller does not pass them. An encoder class is
  known by its \<^verbatim>\<open>default\<close> method: the library's own class, the class of this module,
  or a caller's subclass.
\<close>

datatype py_indent = IndentInt int | IndentStr string

datatype encoder_class = JSONEncoder | JsonEncoder | UserEncoder hook

record kwargs =
  kw_skipkeys :: bool
  kw_ensure_ascii :: bool
  kw_check_circular :: bool
  kw_cls :: "encoder_class option"
  kw_indent :: "py_indent option"
  kw_separators :: "(string \<times> string) option"
  kw_default :: "hook option"
  kw_sort_keys :: bool

text \<open>A call that passes no keyword: the defaults of the library's signature.\<close>

definition no_kwargs :: kwargs where
  "no_kwargs =
     \<lparr>kw_skipkeys = False, kw_ensure_ascii = True, kw_check_circular = True,
      kw_cls = None, kw_indent = None, kw_separators = None, kw_default = None,
      kw_sort_keys = False\<rparr>"

definition class_default :: "objects \<Rightarrow> encoder_class \<Rightarrow> hook" where
  "class_default A c =
     (case c of
        JSONEncoder \<Rightarrow> JSONEncoder_default
      | JsonEncoder \<Rightarrow> JsonEncoder_default A
      | UserEncoder h \<Rightarrow> h)"

text \<open>
  \<^verbatim>\<open>cls(skipkeys=..., ..., default=default, sort_keys=sort_keys)\<close>, that is
  \<^verbatim>\<open>JSONEncoder.__init__\<close>: the separators are \<^verbatim>\<open>(', ', ': ')\<close> unless given, the item
  separator \<^verbatim>\<open>','\<close> under \<^verbatim>\<open>indent\<close>; a \<^verbatim>\<open>default\<close> that is not \<^verbatim>\<open>None\<close> replaces the
  method of the class on the instance. An integer \<^verbatim>\<open>indent\<close> stands for that many spaces.
\<close>

definition indent_text :: "py_indent \<Rightarrow> string" where
  "indent_text ind =
     (case ind of IndentInt k \<Rightarrow> replicate (nat k) CHR '' '' | IndentStr s \<Rightarrow> s)"

definition make_encoder :: "objects \<Rightarrow> encoder_class \<Rightarrow> kwargs \<Rightarrow> encoder" where
  "make_encoder A c kw =
     \<lparr>enc_skipkeys = kw_skipkeys kw,
      enc_ensure_ascii = kw_ensure_ascii kw,
      enc_check_circular = kw_check_circular kw,
      enc_sort_keys = kw_sort_keys kw,
      enc_indent = map_option indent_text (kw_indent kw),
      enc_item_separator =
        (case kw_separators kw of
           Some (item_sep, key_sep) \<Rightarrow> item_sep
         | None \<Rightarrow> if kw_indent kw \<noteq> None then '','' else '', ''),
      enc_key_separator =
        (case kw_separators kw of
           Some (item_sep, key_sep) \<Rightarrow> key_sep
         | None \<Rightarrow> '': ''),
      enc_default =
        (case kw_default kw of
           Some h \<Rightarrow> h
         | None \<Rightarrow> class_default A c)\<rparr>"

text \<open>\<^verbatim>\<open>JSONEncoder.iterencode\<close>: fresh markers for every call, indentation level 0.\<close>

definition JSONEncoder_iterencode :: "nat \<Rightarrow> encoder \<Rightarrow> pyval \<Rightarrow> outcome" where
  "JSONEncoder_iterencode n E obj =
     iterencode n E (if enc_check_circular E then Some {} else None) 0 obj"

text \<open>
  \<^verbatim>\<open>''.join(chunks)\<close>: the text, or the exception that a chunk raised.
\<close>

definition joined :: "outcome \<Rightarrow> (exn + string) option" where
  "joined r =
     (case r of
        None \<Rightarrow> None
      | Some (t, Some e) \<Rightarrow> Some (Inl e)
      | Some (t, None) \<Rightarrow> Some (Inr t))"

text \<open>
  \<^verbatim>\<open>isinstance(o, str)\<close>: the text of a string, also of a class derived from \<^verbatim>\<open>str\<close>.
\<close>

fun str_value :: "pyval \<Rightarrow> string option" where
  "str_value (PStr s) = Some s"
| "str_value (PSub i v) = str_value v"
| "str_value v = None"

text \<open>
  \<^verbatim>\<open>JSONEncoder.encode\<close>: a string is encoded at once, anything else is the chunks of
  \<^verbatim>\<open>iterencode\<close> joined.
\<close>

definition JSONEncoder_encode :: "nat \<Rightarrow> encoder \<Rightarrow> pyval \<Rightarrow> (exn + string) option" where
  "JSONEncoder_encode n E obj =
     (case str_value obj of
        Some s \<Rightarrow> Some (Inr (encode_str E s))
      | None \<Rightarrow> joined (JSONEncoder_iterencode n E obj))"

text \<open>
  \<^verbatim>\<open>json.dumps(obj, **kw)\<close>: \<^verbatim>\<open>if cls is None: cls = JSONEncoder\<close>, then
  \<^verbatim>\<open>cls(...).encode(obj)\<close>.
\<close>

definition lib_dumps :: "nat \<Rightarrow> objects \<Rightarrow> kwargs \<Rightarrow> pyval \<Rightarrow> (exn + string) option" where
  "lib_dumps n A kw obj =
     JSONEncoder_encode n
       (make_encoder A (case kw_cls kw of None \<Rightarrow> JSONEncoder | Some c \<Rightarrow> c) kw) obj"

text \<open>
  \<^verbatim>\<open>json.dump(obj, fp, **kw)\<close>: \<^verbatim>\<open>for chunk in iterable: fp.write(chunk)\<close>. The sink is
  the text written to it so far; what was yielded before an exception has been written.
\<close>

definition written :: "string \<Rightarrow> outcome \<Rightarrow> (string \<times> exn option) option" where
  "written fp r = (case r of None \<Rightarrow> None | Some (t, e) \<Rightarrow> Some (fp @ t, e))"

definition lib_dump ::
  "nat \<Rightarrow> objects \<Rightarrow> kwargs \<Rightarrow> pyval \<Rightarrow> string \<Rightarrow> (string \<times> exn option) option" where
  "lib_dump n A kw obj fp =
     written fp
       (JSONEncoder_iterencode n
          (make_encoder A (case kw_cls kw of None \<Rightarrow> JSONEncoder | Some c \<Rightarrow> c) kw) obj)"

section \<open>The wrappers of the module\<close>

text \<open>
  Modelled from the spec: \<^verbatim>\<open>args_from\<close>, the decorator imported from the package and
  not part of this file, is "a generic forward-the-signature-of-another-callable
  decorator ... a documentation/ergonomics convenience, not a functional dependency":
  the decorated function is called as it is written.
\<close>

definition args_from :: "'a \<Rightarrow> 'b \<Rightarrow> 'b" where
  "args_from original_function f = f"

text \<open>
  \<^verbatim>\<open>
  @args_from(json.dumps)
  def json_dumps(*args, **kwargs):
      return json.dumps(*args, cls=JsonEncoder, **kwargs)
  \<close>
  A caller's own \<^verbatim>\<open>cls\<close> in \<^verbatim>\<open>kwargs\<close> meets the \<^verbatim>\<open>cls\<close> written in the call: Python
  raises \<^verbatim>\<open>TypeError\<close> before \<^verbatim>\<open>json.dumps\<close> is entered. The bound on nested
  conversions and the table of the objects' \<^verbatim>\<open>to_json\<close> come first among the arguments of
  the model; the result is \<open>None\<close> when the bound is not enough.
\<close>

definition json_dumps :: "nat \<Rightarrow> objects \<Rightarrow> kwargs \<Rightarrow> pyval \<Rightarrow> (exn + string) option" where
  "json_dumps =
     args_from lib_dumps
       (\<lambda>n A kwargs obj.
          case kw_cls kwargs of
            Some c \<Rightarrow> Some (Inl DuplicateKeyword)
          | None \<Rightarrow> lib_dumps n A (kwargs\<lparr>kw_cls := Some JsonEncoder\<rparr>) obj)"

text \<open>
  \<^verbatim>\<open>
  @args_from(json.dump)
  def json_dump(*args, **kwargs):
      return json.dump(*args, cls=JsonEncoder, **kwargs)
  \<close>
\<close>

definition json_dump ::
  "nat \<Rightarrow> objects \<Rightarrow> kwargs \<Rightarrow> pyval \<Rightarrow> string \<Rightarrow> (string \<times> exn option) option" where
  "json_dump =
     args_from lib_dump
       (\<lambda>n A kwargs obj fp.
          case kw_cls kwargs of
            Some c \<Rightarrow> Some (fp, Some DuplicateKeyword)
          | None \<Rightarrow> lib_dump n A (kwargs\<lparr>kw_cls := Some JsonEncoder\<rparr>) obj fp)"

section \<open>An example table of objects\<close>

text \<open>
  Object 0 is the \<^verbatim>\<open>Point\<close> of the specification, whose \<^verbatim>\<open>to_json()\<close> returns
  \<^verbatim>\<open>{"x": 1, "y": 2}\<close>; object 1 converts to object 0; the \<^verbatim>\<open>to_json\<close> of object 2 is
  not callable; that of object 3 raises; every other object has none.
\<close>

definition example_objects :: objects where
  "example_objects i =
     (if i = 0 then Returns (PDict [(KStr ''x'', PInt 1), (KStr ''y'', PInt 2)])
      else if i = 1 then Returns (PObj 0)
      else if i = 2 then NonCallable
      else if i = 3 then Raises (UserException ''boom'')
      else Absent)"

section \<open>Sequencing and sorting\<close>

lemma seq_eq_None: "seq a b = None \<longleftrightarrow> a = None \<or> ((\<exists>s. a = Some (s, None)) \<and> b = None)"
  by (cases "(a, b)" rule: seq.cases) auto

lemma seq_eq_ok:
  "seq a b = Some (t, None) \<longleftrightarrow> (\<exists>s u. a = Some (s, None) \<and> b = Some (u, None) \<and> t = s @ u)"
  by (cases "(a, b)" rule: seq.cases) auto

lemma pair_fun_apsnd: "(\<lambda>(k, v). (k, f v)) = apsnd f"
  by (simp add: fun_eq_iff)

lemma insert_item_map:
  "map (apsnd f) (insert_item x ys) = insert_item (apsnd f x) (map (apsnd f) ys)"
  by (induction ys) auto

lemma foldr_insert_item_map:
  "map (apsnd f) (foldr insert_item xs []) = foldr insert_item (map (apsnd f) xs) []"
  by (induction xs) (auto simp: insert_item_map)

lemma py_sorted_map:
  "py_sorted (map (apsnd f) xs) = map_sum id (map (apsnd f)) (py_sorted xs)"
  by (simp add: py_sorted_def foldr_insert_item_map comp_def)

lemma set_insert_item: "set (insert_item x ys) = insert x (set ys)"
  by (induction ys) auto

lemma set_foldr_insert_item: "set (foldr insert_item xs []) = set xs"
  by (induction xs) (auto simp: set_insert_item)

lemma py_sorted_set: "py_sorted xs = Inr ys \<Longrightarrow> set ys = set xs"
  by (auto simp: py_sorted_def set_foldr_insert_item split: if_splits)

lemma iterencode_PDict:
  "iterencode n E M lvl (PDict kvs) =
     (if kvs = [] then emit ''{}''
      else seq (emit (''{'' @ newline_indent E (inner_level E lvl)))
        (case (if enc_sort_keys E then py_sorted kvs else Inr kvs) of
           Inl e \<Rightarrow> raise e
         | Inr items \<Rightarrow>
             seq (join_items E (enc_item_separator E @ newline_indent E (inner_level E lvl)) True
                    (map (apsnd (iterencode n E M (inner_level E lvl))) items))
               (emit (newline_indent E lvl @ ''}''))))"
  by (cases "py_sorted kvs") (auto simp: pair_fun_apsnd py_sorted_map)

section \<open>Two runs of the encoder, related\<close>

text \<open>
  Two runs of \<open>iterencode\<close> on the same value, with encoders that differ in the hook
  at most, stay in a relation \<open>R\<close> that \<open>seq\<close> preserves, provided the step at an
  object preserves it. \<open>S\<close> relates the bounds and the markers of the two runs; under
  \<open>lev\<close> the two runs are at the same indentation level and yield the same text where
  neither meets an object.
\<close>

lemma encoder_fields:
  assumes "E' = E\<lparr>enc_default := h\<rparr>"
  shows "inner_level E' = inner_level E" "newline_indent E' = newline_indent E"
    "encode_str E' = encode_str E" "enc_item_separator E' = enc_item_separator E"
    "enc_sort_keys E' = enc_sort_keys E" "join_items E' = join_items E"
proof -
  show "join_items E' = join_items E"
  proof (intro ext)
    fix sep first krs
    show "join_items E' sep first krs = join_items E sep first krs"
      by (induction krs arbitrary: first)
        (auto simp: assms encode_str_def split: option.splits)
  qed
qed (simp_all add: assms inner_level_def newline_indent_def encode_str_def fun_eq_iff)

lemma join_values_rel:
  assumes emitR: "\<And>s s'. (lev \<longrightarrow> s' = s) \<Longrightarrow> R (emit s) (emit s')"
    and cong: "\<And>a a' b b'. R a a' \<Longrightarrow> R b b' \<Longrightarrow> R (seq a b) (seq a' b')"
    and rel: "list_all2 R rs rs'"
    and buf: "lev \<longrightarrow> buf' = buf" and sep: "lev \<longrightarrow> sep' = sep"
  shows "R (join_values buf sep rs) (join_values buf' sep' rs')"
  using rel buf
proof (induction rs rs' arbitrary: buf buf' rule: list_all2_induct)
  case Nil
  show ?case by (simp add: emitR)
next
  case (Cons r rs r' rs')
  have "R (join_values sep sep rs) (join_values sep' sep' rs')"
    by (rule Cons.IH) (rule sep)
  then show ?case
    using Cons.hyps(1) Cons.prems by (simp del: seq.simps) (intro cong emitR)
qed

lemma join_items_rel:
  assumes emitR: "\<And>s s'. (lev \<longrightarrow> s' = s) \<Longrightarrow> R (emit s) (emit s')"
    and raiseR: "\<And>e. R (raise e) (raise e)"
    and cong: "\<And>a a' b b'. R a a' \<Longrightarrow> R b b' \<Longrightarrow> R (seq a b) (seq a' b')"
    and fmt: "E' = E\<lparr>enc_default := h\<rparr>"
    and rel: "list_all2 (\<lambda>kr kr'. fst kr = fst kr' \<and> R (snd kr) (snd kr')) krs krs'"
    and sep: "lev \<longrightarrow> sep' = sep"
  shows "R (join_items E sep first krs) (join_items E' sep' first krs')"
  using rel
proof (induction krs krs' arbitrary: first rule: list_all2_induct)
  case Nil
  show ?case by (simp add: emitR)
next
  case (Cons kr krs kr' krs')
  obtain k r where kr: "kr = (k, r)" by (cases kr)
  obtain r' where kr': "kr' = (k, r')" using Cons.hyps(1) kr by (cases kr') auto
  have rr: "R r r'" using Cons.hyps(1) kr kr' by simp
  show ?case
  proof (cases "key_text k")
    case None
    then show ?thesis
      using Cons.IH [of first] by (simp add: kr kr' fmt raiseR)
  next
    case (Some ks)
    have "R (seq (emit ((if first then [] else sep) @ encode_str E ks @ enc_key_separator E))
               (seq r (join_items E sep False krs)))
            (seq (emit ((if first then [] else sep') @ encode_str E ks @ enc_key_separator E))
               (seq r' (join_items E' sep' False krs')))"
      using sep by (intro cong emitR rr Cons.IH) auto
    then show ?thesis
      by (simp add: kr kr' Some fmt encode_str_def del: seq.simps)
  qed
qed

lemma iterencode_related:
  fixes R :: "outcome \<Rightarrow> outcome \<Rightarrow> bool"
    and S :: "nat \<Rightarrow> markers \<Rightarrow> nat \<Rightarrow> markers \<Rightarrow> bool"
  assumes emitR: "\<And>s s'. (lev \<longrightarrow> s' = s) \<Longrightarrow> R (emit s) (emit s')"
    and raiseR: "\<And>e. R (raise e) (raise e)"
    and cong: "\<And>a a' b b'. R a a' \<Longrightarrow> R b b' \<Longrightarrow> R (seq a b) (seq a' b')"
    and fmt: "E' = E\<lparr>enc_default := h\<rparr>"
    and obj: "\<And>n M n' M' l l' i.
        S n M n' M' \<Longrightarrow> (lev \<longrightarrow> l' = l) \<Longrightarrow>
        (\<And>k N k' N' l l' v. k < n \<Longrightarrow> S k N k' N' \<Longrightarrow> (lev \<longrightarrow> l' = l) \<Longrightarrow>
           R (iterencode k E N l v) (iterencode k' E' N' l' v)) \<Longrightarrow>
        R (iterencode n E M l (PObj i)) (iterencode n' E' M' l' (PObj i))"
    and start: "S n M n' M'"
    and level: "lev \<longrightarrow> lvl' = lvl"
  shows "R (iterencode n E M lvl v) (iterencode n' E' M' lvl' v)"
  using start level
proof (induction n arbitrary: M n' M' lvl lvl' v rule: less_induct)
  case (less n)
  note S = less.prems(1)
  note flds = encoder_fields [OF fmt]
  have same: "R (emit s) (emit s)" for s by (rule emitR) simp
  show ?case
    using less.prems(2)
  proof (induction v arbitrary: lvl lvl')
    case (PObj i)
    show ?case
      by (rule obj [OF S PObj]) (rule less.IH)
  next
    case (PList xs)
    have lv: "lev \<longrightarrow> inner_level E lvl' = inner_level E lvl"
      using PList.prems by simp
    have rel: "list_all2 R (map (iterencode n E M (inner_level E lvl)) xs)
            (map (iterencode n' E' M' (inner_level E lvl')) xs)"
      using lv by (simp add: list_all2_map1 list_all2_map2 list_all2_same PList.IH)
    have "R (join_values (''['' @ newline_indent E (inner_level E lvl))
                   (enc_item_separator E @ newline_indent E (inner_level E lvl))
                   (map (iterencode n E M (inner_level E lvl)) xs))
                 (join_values (''['' @ newline_indent E (inner_level E lvl'))
                   (enc_item_separator E @ newline_indent E (inner_level E lvl'))
                   (map (iterencode n' E' M' (inner_level E lvl')) xs))"
      using lv by (intro join_values_rel [where R = R and lev = lev, OF emitR cong rel]) auto
    then show ?case
      using PList.prems by (auto simp: flds same intro!: cong emitR simp del: seq.simps)
  next
    case (PTuple xs)
    have lv: "lev \<longrightarrow> inner_level E lvl' = inner_level E lvl"
      using PTuple.prems by simp
    have rel: "list_all2 R (map (iterencode n E M (inner_level E lvl)) xs)
            (map (iterencode n' E' M' (inner_level E lvl')) xs)"
      using lv by (simp add: list_all2_map1 list_all2_map2 list_all2_same PTuple.IH)
    have "R (join_values (''['' @ newline_indent E (inner_level E lvl))
                   (enc_item_separator E @ newline_indent E (inner_level E lvl))
                   (map (iterencode n E M (inner_level E lvl)) xs))
                 (join_values (''['' @ newline_indent E (inner_level E lvl'))
                   (enc_item_separator E @ newline_indent E (inner_level E lvl'))
                   (map (iterencode n' E' M' (inner_level E lvl')) xs))"
      using lv by (intro join_values_rel [where R = R and lev = lev, OF emitR cong rel]) auto
    then show ?case
      using PTuple.prems by (auto simp: flds same intro!: cong emitR simp del: seq.simps)
  next
    case (PDict kvs)
    have lv: "lev \<longrightarrow> inner_level E lvl' = inner_level E lvl"
      using PDict.prems by simp
    have vals: "R (iterencode n E M l v) (iterencode n' E' M' l' v)"
      if "(k, v) \<in> set kvs" "lev \<longrightarrow> l' = l" for k v l l'
      using PDict.IH [of "(k, v)" v l' l] that by simp
    show ?case
    proof (cases "if enc_sort_keys E then py_sorted kvs else Inr kvs")
      case (Inl e)
      then show ?thesis
        using PDict.prems lv
        by (auto simp: iterencode_PDict flds same raiseR intro!: cong emitR
            simp del: iterencode.simps seq.simps)
    next
      case (Inr items)
      have sub: "set items \<subseteq> set kvs"
        using Inr by (auto dest: py_sorted_set split: if_splits)
      have rel: "list_all2 (\<lambda>kr kr'. fst kr = fst kr' \<and> R (snd kr) (snd kr'))
              (map (apsnd (iterencode n E M (inner_level E lvl))) items)
              (map (apsnd (iterencode n' E' M' (inner_level E lvl'))) items)"
        using sub lv by (auto simp: list_all2_map1 list_all2_map2 list_all2_same intro!: vals)
      have ji: "R (join_items E (enc_item_separator E @ newline_indent E (inner_level E lvl)) True
                     (map (apsnd (iterencode n E M (inner_level E lvl))) items))
                   (join_items E' (enc_item_separator E @ newline_indent E (inner_level E lvl')) True
                     (map (apsnd (iterencode n' E' M' (inner_level E lvl'))) items))"
        using lv
        by (intro join_items_rel [where R = R and lev = lev, OF emitR raiseR cong fmt rel]) auto
      have "R (seq (emit (''{'' @ newline_indent E (inner_level E lvl)))
                 (seq (join_items E (enc_item_separator E @ newline_indent E (inner_level E lvl)) True
                     (map (apsnd (iterencode n E M (inner_level E lvl))) items))
                   (emit (newline_indent E lvl @ ''}''))))
              (seq (emit (''{'' @ newline_indent E (inner_level E lvl')))
                 (seq (join_items E' (enc_item_separator E @ newline_indent E (inner_level E lvl')) True
                     (map (apsnd (iterencode n' E' M' (inner_level E lvl'))) items))
                   (emit (newline_indent E lvl' @ ''}''))))"
        using lv PDict.prems by (intro cong emitR ji) auto
      then show ?thesis
        using Inr
        by (simp add: iterencode_PDict flds same del: iterencode.simps seq.simps)
    qed
  qed (simp_all add: same flds)
qed

section \<open>The wrappers, unfolded\<close>

lemma joined_simps [simp]:
  "joined None = None"
  "joined (Some (t, None)) = Some (Inr t)"
  "joined (Some (t, Some e)) = Some (Inl e)"
  "joined (emit t) = Some (Inr t)"
  "joined (raise e) = Some (Inl e)"
  by (simp_all add: joined_def emit_def raise_def)

lemma joined_eq_iff:
  "joined r = None \<longleftrightarrow> r = None"
  "joined r = Some (Inr t) \<longleftrightarrow> r = Some (t, None)"
  "joined r = Some (Inl e) \<longleftrightarrow> (\<exists>t. r = Some (t, Some e))"
  by (auto simp: joined_def split: option.splits)

lemma written_simps [simp]:
  "written fp None = None"
  "written fp (Some (t, e)) = Some (fp @ t, e)"
  "written fp (emit t) = Some (fp @ t, None)"
  "written fp (raise e') = Some (fp, Some e')"
  by (simp_all add: written_def emit_def raise_def)

lemma written_eq_iff:
  "written fp r = None \<longleftrightarrow> r = None"
  "written fp r = Some (fp', e) \<longleftrightarrow> (\<exists>t. r = Some (t, e) \<and> fp' = fp @ t)"
  by (auto simp: written_def split: option.splits)

lemma iterencode_str_value:
  "str_value v = Some s \<Longrightarrow> iterencode n E M lvl v = emit (encode_str E s)"
  by (induction v rule: str_value.induct) simp_all

lemma JSONEncoder_encode_joined:
  "JSONEncoder_encode n E obj = joined (JSONEncoder_iterencode n E obj)"
  by (cases "str_value obj")
    (simp_all add: JSONEncoder_encode_def JSONEncoder_iterencode_def iterencode_str_value)

lemma make_encoder_cls:
  "make_encoder A c (kw\<lparr>kw_cls := x\<rparr>) = make_encoder A c kw"
  by (auto simp: make_encoder_def)

lemma make_encoder_hook:
  "make_encoder A c kw = (make_encoder A c' kw)\<lparr>enc_default := enc_default (make_encoder A c kw)\<rparr>"
  by (simp add: make_encoder_def)

lemma enc_default_make_encoder [simp]:
  "enc_default (make_encoder A c kw) =
     (case kw_default kw of Some h \<Rightarrow> h | None \<Rightarrow> class_default A c)"
  by (simp add: make_encoder_def)

lemma enc_check_circular_make_encoder [simp]:
  "enc_check_circular (make_encoder A c kw) = kw_check_circular kw"
  by (simp add: make_encoder_def)

text \<open>The markers a call starts with.\<close>

definition start_markers :: "kwargs \<Rightarrow> markers" where
  "start_markers kw = (if kw_check_circular kw then Some {} else None)"

lemma lib_dumps_unfold:
  "lib_dumps n A kw obj =
     joined (iterencode n
       (make_encoder A (case kw_cls kw of None \<Rightarrow> JSONEncoder | Some c \<Rightarrow> c) kw)
       (start_markers kw) 0 obj)"
  by (simp add: lib_dumps_def JSONEncoder_encode_joined JSONEncoder_iterencode_def
      start_markers_def)

lemma lib_dump_unfold:
  "lib_dump n A kw obj fp =
     written fp (iterencode n
       (make_encoder A (case kw_cls kw of None \<Rightarrow> JSONEncoder | Some c \<Rightarrow> c) kw)
       (start_markers kw) 0 obj)"
  by (simp add: lib_dump_def JSONEncoder_iterencode_def start_markers_def)

lemma json_dumps_unfold:
  "json_dumps n A kw obj =
     (case kw_cls kw of
        Some c \<Rightarrow> Some (Inl DuplicateKeyword)
      | None \<Rightarrow> joined (iterencode n (make_encoder A JsonEncoder kw) (start_markers kw) 0 obj))"
  by (simp add: json_dumps_def args_from_def lib_dumps_unfold make_encoder_cls
      start_markers_def split: option.splits)

lemma json_dump_unfold:
  "json_dump n A kw obj fp =
     (case kw_cls kw of
        Some c \<Rightarrow> Some (fp, Some DuplicateKeyword)
      | None \<Rightarrow> written fp (iterencode n (make_encoder A JsonEncoder kw) (start_markers kw) 0 obj))"
  by (simp add: json_dump_def args_from_def lib_dump_unfold make_encoder_cls
      start_markers_def split: option.splits)

lemmas wrapper_unfold = json_dumps_unfold json_dump_unfold lib_dumps_unfold lib_dump_unfold

lemma JsonEncoder_default_PObj:
  "JsonEncoder_default A (PObj i) =
     (case A i of
        Absent \<Rightarrow> Inr (PObj i)
      | NonCallable \<Rightarrow> Inl NotCallable
      | Returns r \<Rightarrow> Inr r
      | Raises e \<Rightarrow> Inl e)"
  by (simp add: JsonEncoder_default_def hasattr_to_json_def call_to_json_def call_attr_def
      split: to_json_attr.splits)

lemma class_default_JsonEncoder [simp]: "class_default A JsonEncoder = JsonEncoder_default A"
  by (simp add: class_default_def)

lemma class_default_JSONEncoder [simp]: "class_default A JSONEncoder = JSONEncoder_default"
  by (simp add: class_default_def)

section \<open>An object without \<^verbatim>\<open>to_json\<close>\<close>

text \<open>
  For an object without the attribute, \<open>JsonEncoder_default\<close> returns the object it
  was given, and the library encodes what the hook returns: the same object again. With
  \<^verbatim>\<open>check_circular\<close> the object is found among the markers; without it the recursion
  has no end.
\<close>

lemma iterencode_self_unmarked:
  "enc_default E (PObj i) = Inr (PObj i) \<Longrightarrow> iterencode n E None lvl (PObj i) = None"
  by (induction n) (simp_all add: marked_def mark_def)

lemma json_dumps_no_to_json:
  assumes "A i = Absent" "kw_cls kw = None" "kw_default kw = None"
  shows "json_dumps (Suc n) A kw (PObj i) =
           (if kw_check_circular kw then Some (Inl CircularReference) else None)"
    and "json_dump (Suc n) A kw (PObj i) fp =
           (if kw_check_circular kw then Some (fp, Some CircularReference) else None)"
  using assms
  by (simp_all add: wrapper_unfold start_markers_def iterencode_self_unmarked
      JsonEncoder_default_PObj marked_def mark_def del: iterencode.simps)
    (simp_all add: JsonEncoder_default_PObj marked_def mark_def)

text \<open>
  C1. The claim: for a value that is not natively representable and has no \<^verbatim>\<open>to_json\<close>,
  \<^verbatim>\<open>json_dumps\<close> and \<^verbatim>\<open>json_dump\<close> raise the library's "not serializable" error. The code
  at such a value, called with no keyword: both wrappers end with the "circular
  reference" \<^verbatim>\<open>ValueError\<close>, where \<^verbatim>\<open>json.dumps\<close> itself raises the "not serializable"
  \<^verbatim>\<open>TypeError\<close>.
\<close>

theorem json_dumps_object_without_to_json:
  "json_dumps 1 (\<lambda>i. Absent) no_kwargs (PObj 0) = Some (Inl CircularReference) \<and>
   json_dump 1 (\<lambda>i. Absent) no_kwargs (PObj 0) [] = Some ([], Some CircularReference) \<and>
   lib_dumps 1 (\<lambda>i. Absent) no_kwargs (PObj 0) = Some (Inl NotSerializable)"
  by (simp add: wrapper_unfold start_markers_def no_kwargs_def JsonEncoder_default_PObj
      JSONEncoder_default_def marked_def mark_def)

section \<open>\<^verbatim>\<open>json_dump\<close> against \<^verbatim>\<open>json_dumps\<close>\<close>



section \<open>Values the library writes by itself\<close>

text \<open>
  A natively representable value: \<^verbatim>\<open>None\<close>, a boolean, an integer, a string, a list or
  tuple of such values, a dict with string keys and such values, and an object of a class
  derived from one of these types that holds such a value.
\<close>

fun text_key :: "pykey \<Rightarrow> bool" where
  "text_key (KStr s) = True"
| "text_key k = False"

fun native :: "pyval \<Rightarrow> bool" where
  "native PNone = True"
| "native (PBool b) = True"
| "native (PInt i) = True"
| "native (PStr s) = True"
| "native (PList xs) = (\<forall>x \<in> set xs. native x)"
| "native (PTuple xs) = (\<forall>x \<in> set xs. native x)"
| "native (PDict kvs) = (\<forall>(k, v) \<in> set kvs. text_key k \<and> native v)"
| "native (PObj i) = False"
| "native (PSub i v) = native v"

text \<open>The hook, the bound and the markers play no part in encoding such a value.\<close>

lemma native_iterencode:
  assumes fmt: "E' = E\<lparr>enc_default := h\<rparr>"
  shows "native v \<Longrightarrow> iterencode n E M lvl v = iterencode n' E' M' lvl v"
proof (induction v arbitrary: lvl)
  case (PList xs)
  have m: "map (iterencode n E M (inner_level E lvl)) xs =
        map (iterencode n' E' M' (inner_level E lvl)) xs"
    using PList by (intro map_cong) auto
  show ?case
    by (simp add: encoder_fields [OF fmt] m)
next
  case (PTuple xs)
  have m: "map (iterencode n E M (inner_level E lvl)) xs =
        map (iterencode n' E' M' (inner_level E lvl)) xs"
    using PTuple by (intro map_cong) auto
  show ?case
    by (simp add: encoder_fields [OF fmt] m)
next
  case (PDict kvs)
  have m: "map (\<lambda>(k, v). (k, iterencode n E M (inner_level E lvl) v)) kvs =
        map (\<lambda>(k, v). (k, iterencode n' E' M' (inner_level E lvl) v)) kvs"
  proof (rule map_cong [OF HOL.refl])
    fix x assume x: "x \<in> set kvs"
    obtain k v where kv: "x = (k, v)" by (cases x)
    have "native v" using PDict.prems x kv by auto
    then have "iterencode n E M (inner_level E lvl) v = iterencode n' E' M' (inner_level E lvl) v"
      using PDict.IH [of x v] x kv by simp
    then show "(case x of (k, v) \<Rightarrow> (k, iterencode n E M (inner_level E lvl) v)) =
               (case x of (k, v) \<Rightarrow> (k, iterencode n' E' M' (inner_level E lvl) v))"
      by (simp add: kv)
  qed
  show ?case
    by (simp add: encoder_fields [OF fmt] m split: sum.splits)
qed (simp_all add: encoder_fields [OF fmt])

text \<open>
  C3, as amended. For a natively representable value and every configuration that does
  not pass \<^verbatim>\<open>cls\<close>, \<^verbatim>\<open>json_dumps\<close> gives what \<^verbatim>\<open>json.dumps\<close> gives (the text, or the
  exception), and \<^verbatim>\<open>json_dump\<close> what \<^verbatim>\<open>json.dump\<close> gives.
\<close>

theorem native_same_as_library:
  assumes "native v" and "kw_cls kw = None"
  shows "json_dumps n A kw v = lib_dumps n A kw v \<and>
         json_dump n A kw v fp = lib_dump n A kw v fp"
proof -
  have "iterencode n (make_encoder A JsonEncoder kw) M 0 v =
        iterencode n (make_encoder A JSONEncoder kw) M 0 v" for M
    using native_iterencode [OF make_encoder_hook [of A JSONEncoder kw JsonEncoder] assms(1)]
    by simp
  then show ?thesis
    using assms(2) by (simp add: wrapper_unfold)
qed

theorem native_same_as_library_witness:
  "native (PDict [(KStr ''a'', PInt 1)]) \<and> kw_cls no_kwargs = None \<and>
   json_dumps 0 example_objects no_kwargs (PDict [(KStr ''a'', PInt 1)]) =
     Some (Inr (''{'' @ [CHR 0x22] @ ''a'' @ [CHR 0x22] @ '': 1}'')) \<and>
   lib_dumps 0 example_objects no_kwargs (PDict [(KStr ''a'', PInt 1)]) =
     Some (Inr (''{'' @ [CHR 0x22] @ ''a'' @ [CHR 0x22] @ '': 1}''))"
proof -
  have a: "native (PDict [(KStr ''a'', PInt 1)])" by simp
  have b: "kw_cls no_kwargs = None" by (simp add: no_kwargs_def)
  have c: "lib_dumps 0 example_objects no_kwargs (PDict [(KStr ''a'', PInt 1)]) =
     Some (Inr (''{'' @ [CHR 0x22] @ ''a'' @ [CHR 0x22] @ '': 1}''))"
    by code_simp
  show ?thesis
    using native_same_as_library [OF a b, of 0 example_objects] a b c by simp
qed

text \<open>
  The claim as stated, for every configuration, fails for one that passes \<^verbatim>\<open>cls\<close>: the
  wrapper's call then has two values for the keyword.
\<close>

theorem native_with_cls_counterexample:
  "native (PInt 1) \<and>
   json_dumps 0 example_objects (no_kwargs\<lparr>kw_cls := Some JSONEncoder\<rparr>) (PInt 1) =
     Some (Inl DuplicateKeyword) \<and>
   lib_dumps 0 example_objects (no_kwargs\<lparr>kw_cls := Some JSONEncoder\<rparr>) (PInt 1) =
     Some (Inr ''1'')"
  by code_simp

section \<open>Keywords forwarded\<close>

text \<open>
  Replacing the hook by one that returns the same wherever the first returns leaves
  every successful run as it is.
\<close>

lemma iterencode_hook_success:
  assumes fmt: "E' = E\<lparr>enc_default := h\<rparr>"
    and agree: "\<And>x y. enc_default E x = Inr y \<Longrightarrow> h x = Inr y"
    and ok: "iterencode n E M lvl v = Some (t, None)"
  shows "iterencode n E' M lvl v = Some (t, None)"
proof -
  define R :: "outcome \<Rightarrow> outcome \<Rightarrow> bool"
    where "R r r' \<longleftrightarrow> (\<forall>t. r = Some (t, None) \<longrightarrow> r' = r)" for r r'
  define S :: "nat \<Rightarrow> markers \<Rightarrow> nat \<Rightarrow> markers \<Rightarrow> bool"
    where "S k N k' N' \<longleftrightarrow> k' = k \<and> N' = N" for k N k' N'
  have "R (iterencode n E M lvl v) (iterencode n E' M lvl v)"
  proof (rule iterencode_related [where R = R and S = S and lev = True, OF _ _ _ fmt])
    show "R (emit s) (emit s')" if "True \<longrightarrow> s' = s" for s s'
      using that by (simp add: R_def)
    show "R (raise e) (raise e)" for e by (simp add: R_def)
    show "R (seq a b) (seq a' b')" if "R a a'" "R b b'" for a a' b b'
      using that by (auto simp: R_def seq_eq_ok)
    show "S n M n M" by (simp add: S_def)
    show "True \<longrightarrow> lvl = lvl" by simp
    fix k N k' N' and l l' :: nat and i
    assume S: "S k N k' N'" and l: "True \<longrightarrow> l' = l"
      and IH: "\<And>j N j' N' l l' v. j < k \<Longrightarrow> S j N j' N' \<Longrightarrow> True \<longrightarrow> l' = l \<Longrightarrow>
                 R (iterencode j E N l v) (iterencode j' E' N' l' v)"
    show "R (iterencode k E N l (PObj i)) (iterencode k' E' N' l' (PObj i))"
    proof (cases "enc_default E (PObj i)")
      case (Inl e)
      then show ?thesis by (simp add: R_def raise_def)
    next
      case (Inr o')
      then have h: "h (PObj i) = Inr o'" by (rule agree)
      show ?thesis
      proof (cases k)
        case 0
        then show ?thesis using Inr by (simp add: R_def raise_def)
      next
        case (Suc j)
        have "R (iterencode j E (mark N i) l o') (iterencode j E' (mark N i) l o')"
          by (rule IH) (simp_all add: Suc S_def)
        then show ?thesis
          using S l Inr h Suc by (simp add: S_def fmt R_def raise_def)
      qed
    qed
  qed
  with ok show ?thesis by (simp add: R_def)
qed

text \<open>
  C4, as amended. For every combination of keywords that does not pass \<^verbatim>\<open>cls\<close>:
  whenever \<^verbatim>\<open>json.dumps\<close> returns a text, \<^verbatim>\<open>json_dumps\<close> returns the same text, and
  whenever \<^verbatim>\<open>json.dump\<close> ends without an exception, \<^verbatim>\<open>json_dump\<close> writes the same text.
\<close>

theorem wrapper_accepts_what_library_accepts:
  assumes "kw_cls kw = None"
  shows "(lib_dumps n A kw v = Some (Inr t) \<longrightarrow> json_dumps n A kw v = Some (Inr t)) \<and>
         (lib_dump n A kw v fp = Some (fp', None) \<longrightarrow> json_dump n A kw v fp = Some (fp', None))"
proof -
  let ?E = "make_encoder A JSONEncoder kw" and ?E' = "make_encoder A JsonEncoder kw"
  have agree: "enc_default ?E' x = Inr y" if "enc_default ?E x = Inr y" for x y
    using that by (simp add: JSONEncoder_default_def split: option.splits)
  have ok: "iterencode n ?E' M 0 v = Some (u, None)"
    if "iterencode n ?E M 0 v = Some (u, None)" for M u
    using iterencode_hook_success [OF make_encoder_hook [of A JsonEncoder kw JSONEncoder] agree that] .
  show ?thesis
    using assms by (auto simp: wrapper_unfold joined_eq_iff written_eq_iff intro: ok)
qed

theorem wrapper_accepts_what_library_accepts_witness:
  "kw_cls (no_kwargs\<lparr>kw_indent := Some (IndentInt 1), kw_sort_keys := True\<rparr>) = None \<and>
   lib_dumps 0 example_objects (no_kwargs\<lparr>kw_indent := Some (IndentInt 1), kw_sort_keys := True\<rparr>)
     (PDict [(KInt 2, PNone), (KInt 1, PList [])]) =
     Some (Inr (''{'' @ [CHR 0x0A] @ '' '' @ [CHR 0x22] @ ''1'' @ [CHR 0x22] @ '': [],'' @ [CHR 0x0A]
       @ '' '' @ [CHR 0x22] @ ''2'' @ [CHR 0x22] @ '': null'' @ [CHR 0x0A] @ ''}'')) \<and>
   json_dumps 0 example_objects (no_kwargs\<lparr>kw_indent := Some (IndentInt 1), kw_sort_keys := True\<rparr>)
     (PDict [(KInt 2, PNone), (KInt 1, PList [])]) =
     Some (Inr (''{'' @ [CHR 0x0A] @ '' '' @ [CHR 0x22] @ ''1'' @ [CHR 0x22] @ '': [],'' @ [CHR 0x0A]
       @ '' '' @ [CHR 0x22] @ ''2'' @ [CHR 0x22] @ '': null'' @ [CHR 0x0A] @ ''}''))"
proof -
  let ?kw = "no_kwargs\<lparr>kw_indent := Some (IndentInt 1), kw_sort_keys := True\<rparr>"
  have a: "kw_cls ?kw = None" by (simp add: no_kwargs_def)
  have b: "lib_dumps 0 example_objects ?kw (PDict [(KInt 2, PNone), (KInt 1, PList [])]) =
     Some (Inr (''{'' @ [CHR 0x0A] @ '' '' @ [CHR 0x22] @ ''1'' @ [CHR 0x22] @ '': [],'' @ [CHR 0x0A]
       @ '' '' @ [CHR 0x22] @ ''2'' @ [CHR 0x22] @ '': null'' @ [CHR 0x0A] @ ''}''))"
    by code_simp
  show ?thesis
    using wrapper_accepts_what_library_accepts [OF a, of 0 example_objects] a b by simp
qed

text \<open>
  With \<^verbatim>\<open>cls\<close> among the keywords the library's call succeeds and the wrapper's raises.
\<close>

theorem wrapper_rejects_cls_counterexample:
  "lib_dumps 2 example_objects (no_kwargs\<lparr>kw_cls := Some JsonEncoder\<rparr>) (PList [PObj 1]) =
     Some (Inr (''[{'' @ [CHR 0x22] @ ''x'' @ [CHR 0x22] @ '': 1, '' @ [CHR 0x22] @ ''y'' @
       [CHR 0x22] @ '': 2}]'')) \<and>
   json_dumps 2 example_objects (no_kwargs\<lparr>kw_cls := Some JsonEncoder\<rparr>) (PList [PObj 1]) =
     Some (Inl DuplicateKeyword) \<and>
   json_dump 2 example_objects (no_kwargs\<lparr>kw_cls := Some JsonEncoder\<rparr>) (PList [PObj 1]) [] =
     Some ([], Some DuplicateKeyword)"
  by code_simp

section \<open>Bounds, levels and markers\<close>

text \<open>A run that ends within a bound ends the same way within any larger one.\<close>

lemma encoder_self: "E = E\<lparr>enc_default := enc_default E\<rparr>"
  by simp

lemma iterencode_mono:
  assumes "iterencode n E M lvl v = Some x" and "n \<le> m"
  shows "iterencode m E M lvl v = Some x"
proof -
  define R :: "outcome \<Rightarrow> outcome \<Rightarrow> bool"
    where "R r r' \<longleftrightarrow> (r \<noteq> None \<longrightarrow> r' = r)" for r r'
  define S :: "nat \<Rightarrow> markers \<Rightarrow> nat \<Rightarrow> markers \<Rightarrow> bool"
    where "S k N k' N' \<longleftrightarrow> k \<le> k' \<and> N' = N" for k N k' N'
  have "R (iterencode n E M lvl v) (iterencode m E M lvl v)"
  proof (rule iterencode_related [where R = R and S = S and lev = True, OF _ _ _ encoder_self])
    show "R (emit s) (emit s')" if "True \<longrightarrow> s' = s" for s s'
      using that by (simp add: R_def)
    show "R (raise e) (raise e)" for e by (simp add: R_def)
    show "R (seq a b) (seq a' b')" if "R a a'" "R b b'" for a a' b b'
      using that by (cases "(a, b)" rule: seq.cases) (auto simp: R_def)
    show "S n M m M" using assms(2) by (simp add: S_def)
    show "True \<longrightarrow> lvl = lvl" by simp
    fix k N k' N' and l l' :: nat and i
    assume S: "S k N k' N'" and l: "True \<longrightarrow> l' = l"
      and IH: "\<And>j N j' N' l l' v. j < k \<Longrightarrow> S j N j' N' \<Longrightarrow> True \<longrightarrow> l' = l \<Longrightarrow>
                 R (iterencode j E N l v) (iterencode j' E N' l' v)"
    show "R (iterencode k E N l (PObj i)) (iterencode k' E N' l' (PObj i))"
    proof (cases k)
      case 0
      then show ?thesis
        using S l by (auto simp: R_def S_def split: sum.splits)
    next
      case (Suc j)
      then obtain j' where k': "k' = Suc j'" and jj': "j \<le> j'"
        using S by (cases k') (auto simp: S_def)
      have "R (iterencode j E (mark N i) l o') (iterencode j' E (mark N i) l o')" for o'
        by (rule IH) (simp_all add: Suc S_def jj')
      then show ?thesis
        using S l Suc k' by (auto simp: S_def R_def split: sum.splits)
    qed
  qed
  with assms(1) show ?thesis by (simp add: R_def)
qed

text \<open>How a run ends: not at all, without an exception, or with one.\<close>

definition status :: "outcome \<Rightarrow> exn option option" where
  "status r = map_option snd r"

lemma status_simps [simp]:
  "status None = None" "status (Some (t, e)) = Some e"
  "status (emit s) = Some None" "status (raise e') = Some (Some e')"
  by (simp_all add: status_def emit_def raise_def)

lemma status_seq:
  "status (seq a b) =
     (case status a of
        None \<Rightarrow> None
      | Some (Some e) \<Rightarrow> Some (Some e)
      | Some None \<Rightarrow> status b)"
  by (cases "(a, b)" rule: seq.cases) auto

text \<open>Whether and how a run ends does not depend on the indentation level.\<close>

lemma iterencode_level:
  "status (iterencode n E M lvl v) = status (iterencode n E M lvl' v)"
proof -
  define R :: "outcome \<Rightarrow> outcome \<Rightarrow> bool"
    where "R r r' \<longleftrightarrow> status r = status r'" for r r'
  define S :: "nat \<Rightarrow> markers \<Rightarrow> nat \<Rightarrow> markers \<Rightarrow> bool"
    where "S k N k' N' \<longleftrightarrow> k' = k \<and> N' = N" for k N k' N'
  have "R (iterencode n E M lvl v) (iterencode n E M lvl' v)"
  proof (rule iterencode_related [where R = R and S = S and lev = False, OF _ _ _ encoder_self])
    show "R (emit s) (emit s')" for s s'
      by (simp add: R_def)
    show "R (raise e) (raise e)" for e by (simp add: R_def)
    show "R (seq a b) (seq a' b')" if "R a a'" "R b b'" for a a' b b'
      using that by (simp add: R_def status_seq split: option.splits)
    show "S n M n M" by (simp add: S_def)
    show "False \<longrightarrow> lvl' = lvl" by simp
    fix k N k' N' and l l' :: nat and i
    assume S: "S k N k' N'"
      and IH: "\<And>j N j' N' l l' v. j < k \<Longrightarrow> S j N j' N' \<Longrightarrow> False \<longrightarrow> l' = l \<Longrightarrow>
                 R (iterencode j E N l v) (iterencode j' E N' l' v)"
    show "R (iterencode k E N l (PObj i)) (iterencode k' E N' l' (PObj i))"
    proof (cases k)
      case 0
      then show ?thesis
        using S by (auto simp: R_def S_def split: sum.splits)
    next
      case (Suc j)
      have "R (iterencode j E (mark N i) l o') (iterencode j E (mark N i) l' o')" for o'
        by (rule IH) (simp_all add: Suc S_def)
      then show ?thesis
        using S Suc by (auto simp: S_def R_def split: sum.splits)
    qed
  qed
  then show ?thesis by (simp add: R_def)
qed

definition circular :: "outcome \<Rightarrow> bool" where
  "circular r \<longleftrightarrow> (\<exists>t. r = Some (t, Some CircularReference))"

lemma circular_simps [simp]:
  "\<not> circular None" "circular (Some (t, e)) \<longleftrightarrow> e = Some CircularReference"
  "circular (raise e') \<longleftrightarrow> e' = CircularReference" "\<not> circular (emit s)"
  by (auto simp: circular_def raise_def emit_def)

lemma circular_status: "circular r \<longleftrightarrow> status r = Some (Some CircularReference)"
  by (cases r) (auto simp: circular_def)

lemma circular_level:
  "circular (iterencode n E M lvl v) \<Longrightarrow> circular (iterencode n E M lvl' v)"
  using iterencode_level [of n E M lvl v lvl'] by (simp add: circular_status)

lemma circular_seq:
  "circular (seq a b) \<longleftrightarrow> circular a \<or> ((\<exists>s. a = Some (s, None)) \<and> circular b)"
  by (cases "(a, b)" rule: seq.cases) auto

text \<open>More markers: the run ends as before, or earlier on a marked object.\<close>

lemma iterencode_more_markers:
  assumes "N \<subseteq> N'"
  shows "iterencode n E (Some N') lvl v = iterencode n E (Some N) lvl v \<or>
         circular (iterencode n E (Some N') lvl v)"
proof -
  define R :: "outcome \<Rightarrow> outcome \<Rightarrow> bool"
    where "R r r' \<longleftrightarrow> r' = r \<or> circular r'" for r r'
  define S :: "nat \<Rightarrow> markers \<Rightarrow> nat \<Rightarrow> markers \<Rightarrow> bool"
    where "S k M k' M' \<longleftrightarrow> k' = k \<and> (\<exists>N N'. M = Some N \<and> M' = Some N' \<and> N \<subseteq> N')" for k M k' M'
  have "R (iterencode n E (Some N) lvl v) (iterencode n E (Some N') lvl v)"
  proof (rule iterencode_related [where R = R and S = S and lev = True, OF _ _ _ encoder_self])
    show "R (emit s) (emit s')" if "True \<longrightarrow> s' = s" for s s'
      using that by (simp add: R_def)
    show "R (raise e) (raise e)" for e by (simp add: R_def)
    show "R (seq a b) (seq a' b')" if "R a a'" "R b b'" for a a' b b'
      using that by (cases "(a, b)" rule: seq.cases) (auto simp: R_def circular_seq)
    show "S n (Some N) n (Some N')" using assms by (simp add: S_def)
    show "True \<longrightarrow> lvl = lvl" by simp
    fix k M k' M' and l l' :: nat and i
    assume S: "S k M k' M'" and l: "True \<longrightarrow> l' = l"
      and IH: "\<And>j N j' N' l l' v. j < k \<Longrightarrow> S j N j' N' \<Longrightarrow> True \<longrightarrow> l' = l \<Longrightarrow>
                 R (iterencode j E N l v) (iterencode j' E N' l' v)"
    from S obtain N N' where M: "M = Some N" "M' = Some N'" "N \<subseteq> N'" "k' = k"
      by (auto simp: S_def)
    show "R (iterencode k E M l (PObj i)) (iterencode k' E M' l' (PObj i))"
    proof (cases "i \<in> N'")
      case True
      then show ?thesis by (simp add: M marked_def R_def)
    next
      case False
      then have notin: "i \<notin> N" using M by auto
      show ?thesis
      proof (cases k)
        case 0
        then show ?thesis
          using M l False notin by (auto simp: R_def marked_def split: sum.splits)
      next
        case (Suc j)
        have "R (iterencode j E (mark M i) l o') (iterencode j E (mark M' i) l o')" for o'
          using M by (intro IH) (auto simp: Suc S_def mark_def)
        then show ?thesis
          using M l Suc False notin by (auto simp: R_def marked_def split: sum.splits)
      qed
    qed
  qed
  then show ?thesis by (simp add: R_def)
qed

section \<open>Termination\<close>

text \<open>
  Every chain of conversions from the value reaches a natively representable value: each
  object in it has a \<^verbatim>\<open>to_json\<close> that returns, and what it returns is again such a value.
  An object of a class derived from a built-in type is not converted, and what it holds
  is such a value.
\<close>

inductive convertible :: "objects \<Rightarrow> pyval \<Rightarrow> bool" for A :: objects where
  conv_None: "convertible A PNone"
| conv_Bool: "convertible A (PBool b)"
| conv_Int: "convertible A (PInt i)"
| conv_Str: "convertible A (PStr s)"
| conv_List: "(\<forall>x \<in> set xs. convertible A x) \<Longrightarrow> convertible A (PList xs)"
| conv_Tuple: "(\<forall>x \<in> set xs. convertible A x) \<Longrightarrow> convertible A (PTuple xs)"
| conv_Dict: "(\<forall>kv \<in> set kvs. convertible A (snd kv)) \<Longrightarrow> convertible A (PDict kvs)"
| conv_Obj: "A i = Returns r \<Longrightarrow> convertible A r \<Longrightarrow> convertible A (PObj i)"
| conv_Sub: "convertible A v \<Longrightarrow> convertible A (PSub i v)"

text \<open>
  Objects whose \<^verbatim>\<open>to_json\<close> returns a new object every time: no object is met twice and
  none converts to a native value.
\<close>

definition fresh_objects :: objects where
  "fresh_objects i = Returns (PObj (Suc i))"

lemma seq_not_None: "a \<noteq> None \<Longrightarrow> b \<noteq> None \<Longrightarrow> seq a b \<noteq> None"
  by (simp add: seq_eq_None)

lemma emit_not_None [simp]: "emit s \<noteq> None"
  by (simp add: emit_def)

lemma raise_not_None [simp]: "raise e \<noteq> None"
  by (simp add: raise_def)

lemma join_values_not_None:
  "(\<forall>r \<in> set rs. r \<noteq> None) \<Longrightarrow> join_values buf sep rs \<noteq> None"
proof (induction rs arbitrary: buf)
  case Nil
  show ?case by simp
next
  case (Cons r rs)
  have "join_values sep sep rs \<noteq> None" using Cons.prems by (intro Cons.IH) simp
  moreover have "r \<noteq> None" using Cons.prems by simp
  ultimately show ?case
    by (simp del: seq.simps not_None_eq add: seq_not_None)
qed

lemma join_items_not_None:
  "(\<forall>kr \<in> set krs. snd kr \<noteq> None) \<Longrightarrow> join_items E sep first krs \<noteq> None"
proof (induction krs arbitrary: first)
  case Nil
  show ?case by simp
next
  case (Cons kr krs)
  obtain k r where kr: "kr = (k, r)" by (cases kr)
  have rest: "join_items E sep f krs \<noteq> None" for f
    using Cons.prems by (intro Cons.IH) simp
  have r: "r \<noteq> None" using Cons.prems kr by simp
  show ?case
    using rest r
    by (cases "key_text k") (simp_all del: seq.simps not_None_eq add: kr seq_not_None)
qed

lemma common_bound:
  "(\<forall>x \<in> set xs. \<exists>n::nat. \<forall>m\<ge>n. Q x m) \<Longrightarrow> \<exists>n. \<forall>x \<in> set xs. \<forall>m\<ge>n. Q x m"
proof (induction xs)
  case Nil
  then show ?case by simp
next
  case (Cons x xs)
  then obtain n1 where n1: "\<forall>m\<ge>n1. Q x m" by auto
  from Cons obtain n2 where n2: "\<forall>y \<in> set xs. \<forall>m\<ge>n2. Q y m" by auto
  have "\<forall>y \<in> set (x # xs). \<forall>m\<ge>max n1 n2. Q y m"
    using n1 n2 by auto
  then show ?case ..
qed

lemma convertible_terminates:
  assumes hook: "enc_default E = JsonEncoder_default A"
    and conv: "convertible A v"
  shows "\<exists>n. \<forall>m\<ge>n. \<forall>M lvl. iterencode m E M lvl v \<noteq> None"
  using conv
proof (induction rule: convertible.induct)
  case (conv_List xs)
  then have "\<forall>x \<in> set xs. \<exists>n. \<forall>m\<ge>n. \<forall>M lvl. iterencode m E M lvl x \<noteq> None" by simp
  then obtain n where n: "\<forall>x \<in> set xs. \<forall>m\<ge>n. \<forall>M lvl. iterencode m E M lvl x \<noteq> None"
    using common_bound [of xs "\<lambda>x m. \<forall>M lvl. iterencode m E M lvl x \<noteq> None"] by blast
  have "iterencode m E M lvl (PList xs) \<noteq> None" if "m \<ge> n" for m M lvl
  proof -
    have "join_values buf sep (map (iterencode m E M l) xs) \<noteq> None" for buf sep l
      using n that by (intro join_values_not_None) auto
    then show ?thesis by (simp del: seq.simps not_None_eq add: seq_not_None)
  qed
  then show ?case by blast
next
  case (conv_Tuple xs)
  then have "\<forall>x \<in> set xs. \<exists>n. \<forall>m\<ge>n. \<forall>M lvl. iterencode m E M lvl x \<noteq> None" by simp
  then obtain n where n: "\<forall>x \<in> set xs. \<forall>m\<ge>n. \<forall>M lvl. iterencode m E M lvl x \<noteq> None"
    using common_bound [of xs "\<lambda>x m. \<forall>M lvl. iterencode m E M lvl x \<noteq> None"] by blast
  have "iterencode m E M lvl (PTuple xs) \<noteq> None" if "m \<ge> n" for m M lvl
  proof -
    have "join_values buf sep (map (iterencode m E M l) xs) \<noteq> None" for buf sep l
      using n that by (intro join_values_not_None) auto
    then show ?thesis by (simp del: seq.simps not_None_eq add: seq_not_None)
  qed
  then show ?case by blast
next
  case (conv_Dict kvs)
  then have "\<forall>kv \<in> set kvs. \<exists>n. \<forall>m\<ge>n. \<forall>M lvl. iterencode m E M lvl (snd kv) \<noteq> None" by simp
  then obtain n where n: "\<forall>kv \<in> set kvs. \<forall>m\<ge>n. \<forall>M lvl. iterencode m E M lvl (snd kv) \<noteq> None"
    using common_bound [of kvs "\<lambda>kv m. \<forall>M lvl. iterencode m E M lvl (snd kv) \<noteq> None"] by blast
  have "iterencode m E M lvl (PDict kvs) \<noteq> None" if "m \<ge> n" for m M lvl
  proof (cases "if enc_sort_keys E then py_sorted kvs else Inr kvs")
    case (Inl e)
    then show ?thesis
      by (simp add: iterencode_PDict seq_not_None del: iterencode.simps seq.simps not_None_eq)
  next
    case (Inr items)
    have sub: "set items \<subseteq> set kvs"
      using Inr by (auto dest: py_sorted_set split: if_splits)
    have "join_items E sep True (map (apsnd (iterencode m E M l)) items) \<noteq> None" for sep l
    proof (rule join_items_not_None, rule ballI)
      fix kr assume "kr \<in> set (map (apsnd (iterencode m E M l)) items)"
      then obtain k v where kv: "(k, v) \<in> set items" and kr: "kr = (k, iterencode m E M l v)"
        by auto
      have "(k, v) \<in> set kvs" using kv sub by auto
      then have "iterencode m E M l (snd (k, v)) \<noteq> None"
        using n that by blast
      then show "snd kr \<noteq> None" by (simp add: kr del: not_None_eq)
    qed
    then show ?thesis
      using Inr by (simp add: iterencode_PDict seq_not_None del: iterencode.simps seq.simps not_None_eq)
  qed
  then show ?case by blast
next
  case (conv_Obj i r)
  then obtain n where n: "\<forall>m\<ge>n. \<forall>M lvl. iterencode m E M lvl r \<noteq> None" by blast
  have "iterencode m E M lvl (PObj i) \<noteq> None" if "m \<ge> Suc n" for m M lvl
  proof -
    from that obtain k where m: "m = Suc k" and k: "k \<ge> n"
      using Suc_le_D by blast
    show ?thesis
      using conv_Obj.hyps(1) n k
      by (simp add: m hook JsonEncoder_default_PObj del: not_None_eq)
  qed
  then show ?case by blast
qed simp_all

lemma fresh_objects_diverge:
  assumes hook: "enc_default E = JsonEncoder_default fresh_objects"
  shows "(\<forall>j. marked M j \<longrightarrow> j < i) \<Longrightarrow> iterencode n E M lvl (PObj i) = None"
proof (induction n arbitrary: M i)
  case 0
  then have "\<not> marked M i" by auto
  then show ?case
    by (simp add: hook JsonEncoder_default_PObj fresh_objects_def)
next
  case (Suc n)
  then have "\<not> marked M i" by auto
  moreover have "iterencode n E (mark M i) lvl (PObj (Suc i)) = None"
    using Suc.prems
    by (intro Suc.IH) (auto simp: marked_def mark_def less_Suc_eq split: option.splits)
  ultimately show ?case
    by (simp add: hook JsonEncoder_default_PObj fresh_objects_def)
qed

text \<open>
  C7. When every chain of conversions from the value reaches a natively representable
  value, \<^verbatim>\<open>json_dumps\<close> and \<^verbatim>\<open>json_dump\<close> come to an end (with a text or an exception) for
  every bound from some bound on, in every configuration that does not pass \<^verbatim>\<open>default\<close>.
  Without that precondition nothing bounds the recursion: on an object whose conversions
  never reach a native value and never repeat, no bound is enough.
\<close>

theorem serialization_terminates:
  "(convertible A v \<and> kw_default kw = None \<longrightarrow>
      (\<exists>n. \<forall>m\<ge>n. json_dumps m A kw v \<noteq> None \<and> (\<forall>fp. json_dump m A kw v fp \<noteq> None))) \<and>
   (kw_cls kw = None \<and> kw_default kw = None \<longrightarrow>
      (\<forall>n fp. json_dumps n fresh_objects kw (PObj 0) = None \<and>
              json_dump n fresh_objects kw (PObj 0) fp = None))"
proof (intro conjI impI)
  assume a: "convertible A v \<and> kw_default kw = None"
  then have "enc_default (make_encoder A JsonEncoder kw) = JsonEncoder_default A" by simp
  from convertible_terminates [OF this] a
  obtain n where "\<forall>m\<ge>n. \<forall>M lvl. iterencode m (make_encoder A JsonEncoder kw) M lvl v \<noteq> None"
    by blast
  then have "\<forall>m\<ge>n. json_dumps m A kw v \<noteq> None \<and> (\<forall>fp. json_dump m A kw v fp \<noteq> None)"
    by (simp add: wrapper_unfold joined_eq_iff written_eq_iff split: option.splits
        del: not_None_eq)
  then show "\<exists>n. \<forall>m\<ge>n. json_dumps m A kw v \<noteq> None \<and> (\<forall>fp. json_dump m A kw v fp \<noteq> None)" ..
next
  assume a: "kw_cls kw = None \<and> kw_default kw = None"
  then have hook: "enc_default (make_encoder fresh_objects JsonEncoder kw) =
                   JsonEncoder_default fresh_objects" by simp
  have "iterencode n (make_encoder fresh_objects JsonEncoder kw) (start_markers kw) 0 (PObj 0) = None"
    for n
    by (rule fresh_objects_diverge [OF hook]) (simp add: start_markers_def marked_def)
  then show "\<forall>n fp. json_dumps n fresh_objects kw (PObj 0) = None \<and>
              json_dump n fresh_objects kw (PObj 0) fp = None"
    using a by (simp add: wrapper_unfold)
qed

theorem serialization_terminates_witness:
  "convertible example_objects (PList [PObj 1]) \<and>
   kw_cls no_kwargs = None \<and> kw_default no_kwargs = None \<and>
   (\<exists>n. \<forall>m\<ge>n. json_dumps m example_objects no_kwargs (PList [PObj 1]) \<noteq> None \<and>
      (\<forall>fp. json_dump m example_objects no_kwargs (PList [PObj 1]) fp \<noteq> None)) \<and>
   (\<forall>n fp. json_dumps n fresh_objects no_kwargs (PObj 0) = None \<and>
      json_dump n fresh_objects no_kwargs (PObj 0) fp = None)"
proof -
  have a: "convertible example_objects (PList [PObj 1])"
    by (auto intro!: convertible.intros simp: example_objects_def)
  have b: "kw_cls no_kwargs = None" "kw_default no_kwargs = None"
    by (simp_all add: no_kwargs_def)
  show ?thesis
    using serialization_terminates [of example_objects "PList [PObj 1]" no_kwargs] a b
    by simp
qed

section \<open>Conversion\<close>

lemma circular_more_markers:
  assumes "circular (iterencode n E (Some N) lvl v)" and "N \<subseteq> N'"
  shows "circular (iterencode n E (Some N') lvl v)"
  using iterencode_more_markers [OF assms(2), of n E lvl v] assms(1) by auto

lemma circular_mono:
  assumes "circular (iterencode n E M lvl v)" and "n \<le> m"
  shows "circular (iterencode m E M lvl v)"
proof -
  from assms(1) obtain t where "iterencode n E M lvl v = Some (t, Some CircularReference)"
    by (auto simp: circular_def)
  from iterencode_mono [OF this assms(2)] show ?thesis by simp
qed

lemma iterencode_PObj_Some:
  "iterencode n E (Some N) lvl (PObj p) =
     (if p \<in> N then raise CircularReference
      else case enc_default E (PObj p) of
        Inl e \<Rightarrow> raise e
      | Inr o' \<Rightarrow> (case n of 0 \<Rightarrow> None | Suc k \<Rightarrow> iterencode k E (Some (insert p N)) lvl o'))"
  by (simp add: marked_def mark_def split: sum.splits nat.splits)

text \<open>
  Object \<open>i\<close> converts to \<open>r\<close>, and encoding \<open>r\<close> with \<open>i\<close> marked ends on a marked
  object. Then a run that ends on a marked object with \<open>i\<close> marked also does so without
  that mark, given \<open>Suc k\<close> more conversions; and a successful run stays as it is.
\<close>

lemma circular_without_mark:
  assumes hook: "enc_default E (PObj i) = Inr r"
    and G: "circular (iterencode k E (Some {i}) l0 r)"
  shows "(\<forall>t. iterencode n E (Some (insert i N)) lvl v = Some (t, None) \<longrightarrow>
            iterencode (n + Suc k) E (Some N) lvl v = Some (t, None)) \<and>
         (circular (iterencode n E (Some (insert i N)) lvl v) \<longrightarrow>
            circular (iterencode (n + Suc k) E (Some N) lvl v))"
proof -
  define R :: "outcome \<Rightarrow> outcome \<Rightarrow> bool"
    where "R a a' \<longleftrightarrow> (\<forall>t. a = Some (t, None) \<longrightarrow> a' = a) \<and> (circular a \<longrightarrow> circular a')"
    for a a'
  define S :: "nat \<Rightarrow> markers \<Rightarrow> nat \<Rightarrow> markers \<Rightarrow> bool"
    where "S j M j' M' \<longleftrightarrow> j' = j + Suc k \<and> (\<exists>N. M = Some (insert i N) \<and> M' = Some N)"
    for j M j' M'
  have "R (iterencode n E (Some (insert i N)) lvl v) (iterencode (n + Suc k) E (Some N) lvl v)"
  proof (rule iterencode_related [where R = R and S = S and lev = True, OF _ _ _ encoder_self])
    show "R (emit s) (emit s')" if "True \<longrightarrow> s' = s" for s s'
      using that by (simp add: R_def)
    show "R (raise e) (raise e)" for e by (simp add: R_def)
    show "R (seq a b) (seq a' b')" if "R a a'" "R b b'" for a a' b b'
      using that by (auto simp: R_def seq_eq_ok circular_seq)
    show "S n (Some (insert i N)) (n + Suc k) (Some N)" by (simp add: S_def)
    show "True \<longrightarrow> lvl = lvl" by simp
    fix m M m' M' and l l' :: nat and p
    assume S: "S m M m' M'" and l: "True \<longrightarrow> l' = l"
      and IH: "\<And>j N j' N' l l' v. j < m \<Longrightarrow> S j N j' N' \<Longrightarrow> True \<longrightarrow> l' = l \<Longrightarrow>
                 R (iterencode j E N l v) (iterencode j' E N' l' v)"
    from S obtain N where M: "M = Some (insert i N)" "M' = Some N" "m' = m + Suc k"
      by (auto simp: S_def)
    from l have l': "l' = l" by simp
    show "R (iterencode m E M l (PObj p)) (iterencode m' E M' l' (PObj p))"
    proof (cases "p \<in> N")
      case True
      then show ?thesis by (simp add: M l' iterencode_PObj_Some R_def raise_def del: iterencode.simps)
    next
      case pN: False
      show ?thesis
      proof (cases "p = i")
        case True
        have "circular (iterencode k E (Some {i}) l r)"
          using G by (rule circular_level)
        then have "circular (iterencode (m + k) E (Some {i}) l r)"
          by (rule circular_mono) simp
        then have "circular (iterencode (m + k) E (Some (insert i N)) l r)"
          by (rule circular_more_markers) simp
        then show ?thesis
          using pN True hook
          by (simp add: M l' iterencode_PObj_Some R_def raise_def del: iterencode.simps)
      next
        case False
        show ?thesis
        proof (cases "enc_default E (PObj p)")
          case (Inl e)
          then show ?thesis
            using pN False by (simp add: M l' iterencode_PObj_Some R_def raise_def del: iterencode.simps)
        next
          case (Inr o')
          show ?thesis
          proof (cases m)
            case 0
            then show ?thesis
              using pN False Inr
              by (simp add: M l' iterencode_PObj_Some R_def raise_def del: iterencode.simps)
          next
            case (Suc j)
            have "R (iterencode j E (Some (insert i (insert p N))) l o')
                    (iterencode (j + Suc k) E (Some (insert p N)) l o')"
              by (rule IH) (auto simp: Suc S_def)
            then show ?thesis
              using pN False Inr Suc
              by (simp add: M l' iterencode_PObj_Some insert_commute del: iterencode.simps)
          qed
        qed
      qed
    qed
  qed
  then show ?thesis by (simp add: R_def)
qed

text \<open>
  Conversely: when encoding \<open>r\<close> with \<open>i\<close> marked ends on a marked object within
  \<open>n0\<close> conversions, marking \<open>i\<close> changes a run within that bound only from one that
  ends on a marked object, or does not end, into one that ends on a marked object.
\<close>

lemma circular_with_mark:
  assumes hook: "enc_default E (PObj i) = Inr r"
    and H: "circular (iterencode n0 E (Some {i}) l0 r)"
    and n: "n \<le> n0"
  shows "iterencode n E (Some (insert i N)) lvl v = iterencode n E (Some N) lvl v \<or>
         (circular (iterencode n E (Some (insert i N)) lvl v) \<and>
          (iterencode n E (Some N) lvl v = None \<or> circular (iterencode n E (Some N) lvl v)))"
proof -
  define R :: "outcome \<Rightarrow> outcome \<Rightarrow> bool"
    where "R y x \<longleftrightarrow> x = y \<or> (circular x \<and> (y = None \<or> circular y))" for y x
  define S :: "nat \<Rightarrow> markers \<Rightarrow> nat \<Rightarrow> markers \<Rightarrow> bool"
    where "S j M j' M' \<longleftrightarrow> j' = j \<and> j \<le> n0 \<and> (\<exists>N. M = Some N \<and> M' = Some (insert i N))"
    for j M j' M'
  have "R (iterencode n E (Some N) lvl v) (iterencode n E (Some (insert i N)) lvl v)"
  proof (rule iterencode_related [where R = R and S = S and lev = True, OF _ _ _ encoder_self])
    show "R (emit s) (emit s')" if "True \<longrightarrow> s' = s" for s s'
      using that by (simp add: R_def)
    show "R (raise e) (raise e)" for e by (simp add: R_def)
    show "R (seq a b) (seq a' b')" if "R a a'" "R b b'" for a a' b b'
      using that by (cases "(a, b)" rule: seq.cases) (auto simp: R_def circular_seq seq_eq_None)
    show "S n (Some N) n (Some (insert i N))" using n by (simp add: S_def)
    show "True \<longrightarrow> lvl = lvl" by simp
    fix m M m' M' and l l' :: nat and p
    assume S: "S m M m' M'" and l: "True \<longrightarrow> l' = l"
      and IH: "\<And>j N j' N' l l' v. j < m \<Longrightarrow> S j N j' N' \<Longrightarrow> True \<longrightarrow> l' = l \<Longrightarrow>
                 R (iterencode j E N l v) (iterencode j' E N' l' v)"
    from S obtain N where M: "M = Some N" "M' = Some (insert i N)" "m' = m" "m \<le> n0"
      by (auto simp: S_def)
    from l have l': "l' = l" by simp
    show "R (iterencode m E M l (PObj p)) (iterencode m' E M' l' (PObj p))"
    proof (cases "p \<in> N")
      case True
      then show ?thesis by (simp add: M l' iterencode_PObj_Some R_def raise_def del: iterencode.simps)
    next
      case pN: False
      show ?thesis
      proof (cases "p = i")
        case True
        have "circular (iterencode n0 E (Some {i}) l r)"
          using H by (rule circular_level)
        then have c: "circular (iterencode n0 E (Some (insert i N)) l r)"
          by (rule circular_more_markers) simp
        have "iterencode j E (Some (insert i N)) l r = None \<or>
              circular (iterencode j E (Some (insert i N)) l r)" if "j \<le> n0" for j
        proof (cases "iterencode j E (Some (insert i N)) l r")
          case None
          then show ?thesis by simp
        next
          case (Some x)
          from iterencode_mono [OF this that] c show ?thesis by (simp add: Some)
        qed
        then show ?thesis
          using pN True hook M(4)
          by (cases m) (auto simp: M l' iterencode_PObj_Some R_def raise_def simp del: iterencode.simps)
      next
        case False
        show ?thesis
        proof (cases "enc_default E (PObj p)")
          case (Inl e)
          then show ?thesis
            using pN False by (simp add: M l' iterencode_PObj_Some R_def raise_def del: iterencode.simps)
        next
          case (Inr o')
          show ?thesis
          proof (cases m)
            case 0
            then show ?thesis
              using pN False Inr
              by (simp add: M l' iterencode_PObj_Some R_def raise_def del: iterencode.simps)
          next
            case (Suc j)
            have "R (iterencode j E (Some (insert p N)) l o')
                    (iterencode j E (Some (insert i (insert p N))) l o')"
              using M(4) by (intro IH) (auto simp: Suc S_def)
            then show ?thesis
              using pN False Inr Suc
              by (simp add: M l' iterencode_PObj_Some insert_commute del: iterencode.simps)
          qed
        qed
      qed
    qed
  qed
  then show ?thesis by (simp add: R_def)
qed

lemma joined_circular: "circular a \<Longrightarrow> joined a = Some (Inl CircularReference)"
  by (auto simp: circular_def)

lemma joined_Some_circular:
  "joined a = Some x \<Longrightarrow> circular a \<Longrightarrow> x = Inl CircularReference"
  by (auto simp: circular_def)

text \<open>
  What encoding \<open>r\<close> comes to is the same with the object that converts to \<open>r\<close> marked
  and without, once the bound is large enough.
\<close>

lemma encode_converted:
  assumes hook: "enc_default E (PObj i) = Inr r"
  shows "(\<exists>n. joined (iterencode n E (Some {i}) lvl r) = Some x) \<longleftrightarrow>
         (\<exists>n. joined (iterencode n E (Some {}) lvl r) = Some x)"
proof
  assume "\<exists>n. joined (iterencode n E (Some {i}) lvl r) = Some x"
  then obtain n where n: "joined (iterencode n E (Some {i}) lvl r) = Some x" ..
  from iterencode_more_markers [of "{}" "{i}" n E lvl r]
  consider "iterencode n E (Some {i}) lvl r = iterencode n E (Some {}) lvl r"
    | "circular (iterencode n E (Some {i}) lvl r)" by auto
  then show "\<exists>n. joined (iterencode n E (Some {}) lvl r) = Some x"
  proof cases
    case 1
    with n have "joined (iterencode n E (Some {}) lvl r) = Some x" by simp
    then show ?thesis ..
  next
    case 2
    then have x: "x = Inl CircularReference" using n by (rule joined_Some_circular [rotated])
    from circular_without_mark [OF hook 2, of n "{}" lvl r] 2
    have "circular (iterencode (n + Suc n) E (Some {}) lvl r)" by simp
    then have "joined (iterencode (n + Suc n) E (Some {}) lvl r) = Some x"
      unfolding x by (rule joined_circular)
    then show ?thesis ..
  qed
next
  assume "\<exists>n. joined (iterencode n E (Some {}) lvl r) = Some x"
  then obtain n where n: "joined (iterencode n E (Some {}) lvl r) = Some x" ..
  from iterencode_more_markers [of "{}" "{i}" n E lvl r]
  consider "iterencode n E (Some {i}) lvl r = iterencode n E (Some {}) lvl r"
    | "circular (iterencode n E (Some {i}) lvl r)" by auto
  then show "\<exists>n. joined (iterencode n E (Some {i}) lvl r) = Some x"
  proof cases
    case 1
    with n have "joined (iterencode n E (Some {i}) lvl r) = Some x" by simp
    then show ?thesis ..
  next
    case 2
    from circular_with_mark [OF hook 2 order_refl, of "{}" lvl r] n
    have "iterencode n E (Some {i}) lvl r = iterencode n E (Some {}) lvl r \<or>
          circular (iterencode n E (Some {}) lvl r)"
      by (auto simp: joined_eq_iff)
    then show ?thesis
    proof
      assume "iterencode n E (Some {i}) lvl r = iterencode n E (Some {}) lvl r"
      with n have "joined (iterencode n E (Some {i}) lvl r) = Some x" by simp
      then show ?thesis ..
    next
      assume "circular (iterencode n E (Some {}) lvl r)"
      with n have "x = Inl CircularReference" by (rule joined_Some_circular)
      with joined_circular [OF 2]
      have "joined (iterencode n E (Some {i}) lvl r) = Some x" by simp
      then show ?thesis ..
    qed
  qed
qed

lemma json_dumps_converted:
  assumes ret: "A i = Returns r" and kw: "kw_default kw = None"
  shows "(\<exists>n. json_dumps n A kw (PObj i) = Some x) \<longleftrightarrow> (\<exists>n. json_dumps n A kw r = Some x)"
proof (cases "kw_cls kw")
  case (Some c)
  then show ?thesis by (simp add: json_dumps_unfold)
next
  case None
  let ?E = "make_encoder A JsonEncoder kw"
  have hook: "enc_default ?E (PObj i) = Inr r"
    using ret kw by (simp add: JsonEncoder_default_PObj)
  have step: "iterencode (Suc n) ?E (start_markers kw) 0 (PObj i) =
              iterencode n ?E (mark (start_markers kw) i) 0 r" for n
    using hook by (simp add: start_markers_def marked_def)
  have zero: "iterencode 0 ?E (start_markers kw) 0 (PObj i) = None"
    using hook by (simp add: start_markers_def marked_def)
  have "(\<exists>n. joined (iterencode n ?E (start_markers kw) 0 (PObj i)) = Some x) \<longleftrightarrow>
        (\<exists>n. joined (iterencode n ?E (mark (start_markers kw) i) 0 r) = Some x)"
  proof
    assume "\<exists>n. joined (iterencode n ?E (start_markers kw) 0 (PObj i)) = Some x"
    then obtain n where n: "joined (iterencode n ?E (start_markers kw) 0 (PObj i)) = Some x" ..
    then obtain k where "n = Suc k" using zero by (cases n) auto
    with n step show "\<exists>n. joined (iterencode n ?E (mark (start_markers kw) i) 0 r) = Some x"
      by auto
  next
    assume "\<exists>n. joined (iterencode n ?E (mark (start_markers kw) i) 0 r) = Some x"
    then obtain n where "joined (iterencode n ?E (mark (start_markers kw) i) 0 r) = Some x" ..
    then have "joined (iterencode (Suc n) ?E (start_markers kw) 0 (PObj i)) = Some x"
      by (simp only: step)
    then show "\<exists>n. joined (iterencode n ?E (start_markers kw) 0 (PObj i)) = Some x" ..
  qed
  also have "\<dots> \<longleftrightarrow> (\<exists>n. joined (iterencode n ?E (start_markers kw) 0 r) = Some x)"
  proof (cases "kw_check_circular kw")
    case True
    then show ?thesis
      using encode_converted [OF hook, of 0 x] by (simp add: start_markers_def mark_def)
  next
    case False
    then show ?thesis by (simp add: start_markers_def mark_def)
  qed
  finally show ?thesis
    using None by (simp add: json_dumps_unfold)
qed

text \<open>
  What \<^verbatim>\<open>json_dump\<close> comes to, from what \<^verbatim>\<open>json_dumps\<close> comes to on the same call.
\<close>

lemma json_dump_ok_iff:
  "json_dump n A kw v fp = Some (s, None) \<longleftrightarrow>
     (\<exists>t. json_dumps n A kw v = Some (Inr t) \<and> s = fp @ t)"
  by (cases "kw_cls kw") (auto simp: wrapper_unfold joined_eq_iff written_eq_iff)

lemma json_dump_raises_iff:
  "(\<exists>s. json_dump n A kw v fp = Some (s, Some e)) \<longleftrightarrow> json_dumps n A kw v = Some (Inl e)"
  by (cases "kw_cls kw") (auto simp: wrapper_unfold joined_eq_iff written_eq_iff)

lemma json_dump_converted:
  assumes ret: "A i = Returns r" and kw: "kw_default kw = None"
  shows "(\<exists>n. json_dump n A kw (PObj i) fp = Some (s, None)) \<longleftrightarrow>
         (\<exists>n. json_dump n A kw r fp = Some (s, None))"
    and "(\<exists>n s. json_dump n A kw (PObj i) fp = Some (s, Some e)) \<longleftrightarrow>
         (\<exists>n s. json_dump n A kw r fp = Some (s, Some e))"
proof -
  have "(\<exists>n. json_dump n A kw (PObj i) fp = Some (s, None)) \<longleftrightarrow>
        (\<exists>t. (\<exists>n. json_dumps n A kw (PObj i) = Some (Inr t)) \<and> s = fp @ t)"
    by (auto simp: json_dump_ok_iff)
  also have "\<dots> \<longleftrightarrow> (\<exists>t. (\<exists>n. json_dumps n A kw r = Some (Inr t)) \<and> s = fp @ t)"
    by (simp only: json_dumps_converted [of A i r kw, OF ret kw])
  also have "\<dots> \<longleftrightarrow> (\<exists>n. json_dump n A kw r fp = Some (s, None))"
    by (auto simp: json_dump_ok_iff)
  finally show "(\<exists>n. json_dump n A kw (PObj i) fp = Some (s, None)) \<longleftrightarrow>
         (\<exists>n. json_dump n A kw r fp = Some (s, None))" .
  have "(\<exists>n s. json_dump n A kw (PObj i) fp = Some (s, Some e)) \<longleftrightarrow>
        (\<exists>n. json_dumps n A kw (PObj i) = Some (Inl e))"
    by (simp only: json_dump_raises_iff)
  also have "\<dots> \<longleftrightarrow> (\<exists>n. json_dumps n A kw r = Some (Inl e))"
    by (rule json_dumps_converted [of A i r kw, OF ret kw])
  also have "\<dots> \<longleftrightarrow> (\<exists>n s. json_dump n A kw r fp = Some (s, Some e))"
    by (simp only: json_dump_raises_iff)
  finally show "(\<exists>n s. json_dump n A kw (PObj i) fp = Some (s, Some e)) \<longleftrightarrow>
         (\<exists>n s. json_dump n A kw r fp = Some (s, Some e))" .
qed

text \<open>
  C2. The claim is made for any value that exposes \<^verbatim>\<open>to_json\<close>. It holds for an object
  that the library cannot write by itself (\<open>PObj\<close>), in every configuration that does not
  pass \<^verbatim>\<open>default\<close>: when the \<^verbatim>\<open>to_json\<close> of object \<open>i\<close> returns \<open>r\<close>, \<^verbatim>\<open>json_dumps\<close> comes to
  the same on the object and on \<open>r\<close> (the same text or the same exception, each for a
  large enough bound), \<^verbatim>\<open>json_dump\<close> writes the same text when it succeeds and raises the
  same exception when it does not. And when \<open>i\<close> converts to an object \<open>j\<close> that converts
  to a native value \<open>v\<close>, both wrappers come to the same on \<open>i\<close> and on \<open>v\<close>.
\<close>

theorem to_json_substitution:
  "(A i = Returns r \<and> kw_default kw = None \<longrightarrow>
      ((\<exists>n. json_dumps n A kw (PObj i) = Some x) \<longleftrightarrow> (\<exists>n. json_dumps n A kw r = Some x)) \<and>
      ((\<exists>n. json_dump n A kw (PObj i) fp = Some (s, None)) \<longleftrightarrow>
       (\<exists>n. json_dump n A kw r fp = Some (s, None))) \<and>
      ((\<exists>n s. json_dump n A kw (PObj i) fp = Some (s, Some e)) \<longleftrightarrow>
       (\<exists>n s. json_dump n A kw r fp = Some (s, Some e)))) \<and>
   (A i = Returns (PObj j) \<and> A j = Returns v \<and> native v \<and> kw_default kw = None \<longrightarrow>
      ((\<exists>n. json_dumps n A kw (PObj i) = Some x) \<longleftrightarrow> (\<exists>n. json_dumps n A kw v = Some x)) \<and>
      ((\<exists>n. json_dump n A kw (PObj i) fp = Some (s, None)) \<longleftrightarrow>
       (\<exists>n. json_dump n A kw v fp = Some (s, None))) \<and>
      ((\<exists>n s. json_dump n A kw (PObj i) fp = Some (s, Some e)) \<longleftrightarrow>
       (\<exists>n s. json_dump n A kw v fp = Some (s, Some e))))"
proof (intro conjI impI)
  assume a: "A i = Returns r \<and> kw_default kw = None"
  then show "(\<exists>n. json_dumps n A kw (PObj i) = Some x) \<longleftrightarrow> (\<exists>n. json_dumps n A kw r = Some x)"
    by (intro json_dumps_converted) simp_all
  from a show "(\<exists>n. json_dump n A kw (PObj i) fp = Some (s, None)) \<longleftrightarrow>
       (\<exists>n. json_dump n A kw r fp = Some (s, None))"
    by (intro json_dump_converted) simp_all
  from a show "(\<exists>n s. json_dump n A kw (PObj i) fp = Some (s, Some e)) \<longleftrightarrow>
       (\<exists>n s. json_dump n A kw r fp = Some (s, Some e))"
    by (intro json_dump_converted) simp_all
next
  assume a: "A i = Returns (PObj j) \<and> A j = Returns v \<and> native v \<and> kw_default kw = None"
  then have i: "A i = Returns (PObj j)" and j: "A j = Returns v" and kw: "kw_default kw = None"
    by simp_all
  have "(\<exists>n. json_dumps n A kw (PObj i) = Some x) \<longleftrightarrow>
             (\<exists>n. json_dumps n A kw (PObj j) = Some x)"
    by (rule json_dumps_converted [of A i "PObj j" kw, OF i kw])
  also have "\<dots> \<longleftrightarrow> (\<exists>n. json_dumps n A kw v = Some x)"
    by (rule json_dumps_converted [of A j v kw, OF j kw])
  finally show "(\<exists>n. json_dumps n A kw (PObj i) = Some x) \<longleftrightarrow>
                (\<exists>n. json_dumps n A kw v = Some x)" .
  have "(\<exists>n. json_dump n A kw (PObj i) fp = Some (s, None)) \<longleftrightarrow>
        (\<exists>n. json_dump n A kw (PObj j) fp = Some (s, None))"
    by (rule json_dump_converted [of A i "PObj j" kw, OF i kw])
  also have "\<dots> \<longleftrightarrow> (\<exists>n. json_dump n A kw v fp = Some (s, None))"
    by (rule json_dump_converted [of A j v kw, OF j kw])
  finally show "(\<exists>n. json_dump n A kw (PObj i) fp = Some (s, None)) \<longleftrightarrow>
                (\<exists>n. json_dump n A kw v fp = Some (s, None))" .
  have "(\<exists>n s. json_dump n A kw (PObj i) fp = Some (s, Some e)) \<longleftrightarrow>
        (\<exists>n s. json_dump n A kw (PObj j) fp = Some (s, Some e))"
    by (rule json_dump_converted [of A i "PObj j" kw, OF i kw])
  also have "\<dots> \<longleftrightarrow> (\<exists>n s. json_dump n A kw v fp = Some (s, Some e))"
    by (rule json_dump_converted [of A j v kw, OF j kw])
  finally show "(\<exists>n s. json_dump n A kw (PObj i) fp = Some (s, Some e)) \<longleftrightarrow>
                (\<exists>n s. json_dump n A kw v fp = Some (s, Some e))" .
qed

theorem to_json_substitution_witness:
  "example_objects 1 = Returns (PObj 0) \<and>
   example_objects 0 = Returns (PDict [(KStr ''x'', PInt 1), (KStr ''y'', PInt 2)]) \<and>
   native (PDict [(KStr ''x'', PInt 1), (KStr ''y'', PInt 2)]) \<and>
   kw_default no_kwargs = None \<and>
   (\<exists>n. json_dumps n example_objects no_kwargs (PObj 1) =
      Some (Inr (''{'' @ [CHR 0x22] @ ''x'' @ [CHR 0x22] @ '': 1, '' @ [CHR 0x22] @ ''y'' @
        [CHR 0x22] @ '': 2}''))) \<and>
   (\<exists>n. json_dump n example_objects no_kwargs (PObj 1) ''# '' =
      Some (''# {'' @ [CHR 0x22] @ ''x'' @ [CHR 0x22] @ '': 1, '' @ [CHR 0x22] @ ''y'' @
        [CHR 0x22] @ '': 2}'', None)) \<and>
   (\<exists>n. json_dumps n example_objects no_kwargs (PObj 0) =
      Some (Inr (''{'' @ [CHR 0x22] @ ''x'' @ [CHR 0x22] @ '': 1, '' @ [CHR 0x22] @ ''y'' @
        [CHR 0x22] @ '': 2}''))) \<and>
   json_dumps 0 example_objects no_kwargs (PDict [(KStr ''x'', PInt 1), (KStr ''y'', PInt 2)]) =
      Some (Inr (''{'' @ [CHR 0x22] @ ''x'' @ [CHR 0x22] @ '': 1, '' @ [CHR 0x22] @ ''y'' @
        [CHR 0x22] @ '': 2}'')) \<and>
   json_dump 0 example_objects no_kwargs (PDict [(KStr ''x'', PInt 1), (KStr ''y'', PInt 2)])
      ''# '' =
      Some (''# {'' @ [CHR 0x22] @ ''x'' @ [CHR 0x22] @ '': 1, '' @ [CHR 0x22] @ ''y'' @
        [CHR 0x22] @ '': 2}'', None)"
proof -
  let ?d = "PDict [(KStr ''x'', PInt 1), (KStr ''y'', PInt 2)]"
  let ?t = "''{'' @ [CHR 0x22] @ ''x'' @ [CHR 0x22] @ '': 1, '' @ [CHR 0x22] @ ''y'' @
        [CHR 0x22] @ '': 2}''"
  let ?s = "''# {'' @ [CHR 0x22] @ ''x'' @ [CHR 0x22] @ '': 1, '' @ [CHR 0x22] @ ''y'' @
        [CHR 0x22] @ '': 2}''"
  note chained = to_json_substitution [where A = example_objects and i = 1 and j = 0
      and v = ?d and kw = no_kwargs and x = "Inr ?t" and fp = "''# ''" and s = ?s,
      THEN conjunct2, THEN mp]
  note single = to_json_substitution [where A = example_objects and i = 0 and r = ?d
      and kw = no_kwargs and x = "Inr ?t", THEN conjunct1, THEN mp]
  have a: "example_objects 1 = Returns (PObj 0)" "example_objects 0 = Returns ?d"
    "native ?d" "kw_default no_kwargs = None"
    by (simp_all add: example_objects_def no_kwargs_def)
  have b: "json_dumps 0 example_objects no_kwargs ?d = Some (Inr ?t)"
    by code_simp
  have b': "json_dump 0 example_objects no_kwargs ?d ''# '' = Some (?s, None)"
    by code_simp
  have c: "\<exists>n. json_dumps n example_objects no_kwargs ?d = Some (Inr ?t)"
    by (rule exI [of _ 0]) (rule b)
  have c': "\<exists>n. json_dump n example_objects no_kwargs ?d ''# '' = Some (?s, None)"
    by (rule exI [of _ 0]) (rule b')
  have hyp2: "example_objects 1 = Returns (PObj 0) \<and> example_objects 0 = Returns ?d \<and>
      native ?d \<and> kw_default no_kwargs = None"
    by (intro conjI a)
  have hyp1: "example_objects 0 = Returns ?d \<and> kw_default no_kwargs = None"
    by (intro conjI a)
  have d: "(\<exists>n. json_dumps n example_objects no_kwargs (PObj 1) = Some (Inr ?t)) \<longleftrightarrow>
        (\<exists>n. json_dumps n example_objects no_kwargs ?d = Some (Inr ?t))"
    by (rule chained [OF hyp2, THEN conjunct1])
  have d2: "(\<exists>n. json_dump n example_objects no_kwargs (PObj 1) ''# '' = Some (?s, None)) \<longleftrightarrow>
        (\<exists>n. json_dump n example_objects no_kwargs ?d ''# '' = Some (?s, None))"
    by (rule chained [OF hyp2, THEN conjunct2, THEN conjunct1])
  have e: "(\<exists>n. json_dumps n example_objects no_kwargs (PObj 0) = Some (Inr ?t)) \<longleftrightarrow>
        (\<exists>n. json_dumps n example_objects no_kwargs ?d = Some (Inr ?t))"
    by (rule single [OF hyp1, THEN conjunct1])
  have d': "\<exists>n. json_dumps n example_objects no_kwargs (PObj 1) = Some (Inr ?t)"
    using d c by (rule iffD2)
  have d2': "\<exists>n. json_dump n example_objects no_kwargs (PObj 1) ''# '' = Some (?s, None)"
    using d2 c' by (rule iffD2)
  have e': "\<exists>n. json_dumps n example_objects no_kwargs (PObj 0) = Some (Inr ?t)"
    using e c by (rule iffD2)
  show ?thesis
    by (intro conjI a b b' d' d2' e')
qed

text \<open>
  The claim as it is written fails in two ways. An object of a class derived from a
  built-in type may define \<^verbatim>\<open>to_json\<close>: the library writes it as the value it holds and
  never calls the method. Here a list subclass holding \<^verbatim>\<open>[1]\<close> whose \<^verbatim>\<open>to_json()\<close> returns
  \<^verbatim>\<open>{"x": 1, "y": 2}\<close> is written as \<^verbatim>\<open>[1]\<close>. And a caller's \<^verbatim>\<open>default=\<close> takes the place of
  the hook of the class: with \<^verbatim>\<open>default=lambda o: None\<close>, the \<^verbatim>\<open>Point\<close> is written as
  \<^verbatim>\<open>null\<close>.
\<close>

theorem to_json_of_list_subclass_counterexample:
  "hasattr_to_json example_objects (PSub 0 (PList [PInt 1])) \<and>
   call_to_json example_objects (PSub 0 (PList [PInt 1])) =
     Inr (PDict [(KStr ''x'', PInt 1), (KStr ''y'', PInt 2)]) \<and>
   json_dumps 1 example_objects no_kwargs (PSub 0 (PList [PInt 1])) = Some (Inr ''[1]'') \<and>
   json_dump 1 example_objects no_kwargs (PSub 0 (PList [PInt 1])) [] = Some (''[1]'', None) \<and>
   json_dumps 1 example_objects no_kwargs (PDict [(KStr ''x'', PInt 1), (KStr ''y'', PInt 2)]) =
     Some (Inr (''{'' @ [CHR 0x22] @ ''x'' @ [CHR 0x22] @ '': 1, '' @ [CHR 0x22] @ ''y'' @
        [CHR 0x22] @ '': 2}'')) \<and>
   hasattr_to_json example_objects (PObj 0) \<and>
   call_to_json example_objects (PObj 0) =
     Inr (PDict [(KStr ''x'', PInt 1), (KStr ''y'', PInt 2)]) \<and>
   json_dumps 1 example_objects (no_kwargs\<lparr>kw_default := Some (\<lambda>obj. Inr PNone)\<rparr>) (PObj 0) =
     Some (Inr ''null'') \<and>
   json_dumps 1 example_objects (no_kwargs\<lparr>kw_default := Some (\<lambda>obj. Inr PNone)\<rparr>)
     (PDict [(KStr ''x'', PInt 1), (KStr ''y'', PInt 2)]) =
     Some (Inr (''{'' @ [CHR 0x22] @ ''x'' @ [CHR 0x22] @ '': 1, '' @ [CHR 0x22] @ ''y'' @
        [CHR 0x22] @ '': 2}''))"
  by code_simp

section \<open>The object that ends a run\<close>

text \<open>
  \<open>reach n E M lvl v t i\<close>: encoding \<open>v\<close>, the encoder comes to call its hook on the
  object \<open>i\<close>, nothing has been raised before, and \<open>t\<close> is the text yielded so far. The
  object may be the value itself, what a conversion on the way returned, what an object
  of a class derived from a built-in type holds, an element of a list or tuple whose
  elements before it have been written to their end, or the value of a dict item whose
  key is written and whose items before it, in the order the encoder takes them, have
  been written to their end or skipped.
\<close>

inductive reach :: "nat \<Rightarrow> encoder \<Rightarrow> markers \<Rightarrow> nat \<Rightarrow> pyval \<Rightarrow> string \<Rightarrow> oid \<Rightarrow> bool" where
  reach_here: "\<not> marked M i \<Longrightarrow> reach n E M lvl (PObj i) [] i"
| reach_conv:
    "\<not> marked M j \<Longrightarrow> enc_default E (PObj j) = Inr r \<Longrightarrow> reach n E (mark M j) lvl r t i \<Longrightarrow>
     reach (Suc n) E M lvl (PObj j) t i"
| reach_sub: "reach n E M lvl v t i \<Longrightarrow> reach n E M lvl (PSub j v) t i"
| reach_list:
    "join_values (''['' @ newline_indent E (inner_level E lvl))
       (enc_item_separator E @ newline_indent E (inner_level E lvl))
       (map (iterencode n E M (inner_level E lvl)) ys) = Some (s, None) \<Longrightarrow>
     reach n E M (inner_level E lvl) x t i \<Longrightarrow>
     reach n E M lvl (PList (ys @ x # zs))
       (s @ (if ys = [] then ''['' @ newline_indent E (inner_level E lvl)
             else enc_item_separator E @ newline_indent E (inner_level E lvl)) @ t) i"
| reach_tuple:
    "join_values (''['' @ newline_indent E (inner_level E lvl))
       (enc_item_separator E @ newline_indent E (inner_level E lvl))
       (map (iterencode n E M (inner_level E lvl)) ys) = Some (s, None) \<Longrightarrow>
     reach n E M (inner_level E lvl) x t i \<Longrightarrow>
     reach n E M lvl (PTuple (ys @ x # zs))
       (s @ (if ys = [] then ''['' @ newline_indent E (inner_level E lvl)
             else enc_item_separator E @ newline_indent E (inner_level E lvl)) @ t) i"
| reach_dict:
    "(if enc_sort_keys E then py_sorted kvs else Inr kvs) = Inr (bs @ (k, x) # cs) \<Longrightarrow>
     join_items E (enc_item_separator E @ newline_indent E (inner_level E lvl)) True
       (map (apsnd (iterencode n E M (inner_level E lvl))) bs) = Some (s, None) \<Longrightarrow>
     key_text k = Some ks \<Longrightarrow>
     reach n E M (inner_level E lvl) x t i \<Longrightarrow>
     reach n E M lvl (PDict kvs)
       (''{'' @ newline_indent E (inner_level E lvl) @ s @
        (if list_all (\<lambda>b. key_text (fst b) = None) bs then []
         else enc_item_separator E @ newline_indent E (inner_level E lvl)) @
        encode_str E ks @ enc_key_separator E @ t) i"

text \<open>
  The same for a call of the wrappers: the encoder they build, fresh markers, level 0.
\<close>

definition reached :: "nat \<Rightarrow> objects \<Rightarrow> kwargs \<Rightarrow> pyval \<Rightarrow> string \<Rightarrow> oid \<Rightarrow> bool" where
  "reached n A kw v t i =
     reach n (make_encoder A JsonEncoder kw) (if kw_check_circular kw then Some {} else None)
       0 v t i"

text \<open>A run that has not come to its end: it raised, or the bound was not enough.\<close>

definition stopped :: "outcome \<Rightarrow> bool" where
  "stopped r \<longleftrightarrow> status r \<noteq> Some None"

lemma stopped_simps [simp]:
  "stopped None" "stopped (raise e)" "stopped (Some (t, Some e))" "\<not> stopped (emit s)"
  "\<not> stopped (Some (t, None))"
  by (simp_all add: stopped_def)

lemma seq_stopped: "stopped r \<Longrightarrow> seq r r' = r"
  by (cases "(r, r')" rule: seq.cases) (simp_all add: stopped_def)

lemma stopped_seq_emit: "stopped r \<Longrightarrow> stopped (seq (emit s) r)"
  by (simp add: stopped_def status_seq)

lemma seq_emit_seq: "seq (emit s) (seq (emit t) r) = seq (emit (s @ t)) r"
  by (cases r) (auto simp: emit_def)

lemma seq_emit_Nil: "seq (emit []) r = r"
  by (cases r) (auto simp: emit_def)

lemma seq_ok_seq_emit: "seq (Some (s, None)) (seq (emit t) r) = seq (emit (s @ t)) r"
  using seq_emit_seq [of s t r] by (simp add: emit_def)

lemma join_values_stopped:
  assumes "stopped r"
  shows "join_values buf sep rs = Some (s, None) \<Longrightarrow>
         join_values buf sep (rs @ seq (emit t) r # rs') =
           seq (emit (s @ (if rs = [] then buf else sep) @ t)) r"
proof (induction rs arbitrary: buf s)
  case Nil
  then have "s = []" by (simp add: emit_def)
  then show ?case
    using assms by (simp add: seq_stopped stopped_seq_emit seq_emit_seq del: seq.simps)
next
  case (Cons a rs)
  from Cons.prems obtain sa s2 where a: "a = Some (sa, None)"
    and rest: "join_values sep sep rs = Some (s2, None)" and s: "s = buf @ sa @ s2"
    by (auto simp: seq_eq_ok emit_def)
  have "join_values sep sep (rs @ seq (emit t) r # rs') = seq (emit (s2 @ sep @ t)) r"
    using Cons.IH [OF rest] by simp
  then show ?case
    by (simp add: a s seq_ok_seq_emit seq_emit_seq del: seq.simps)
qed

lemma join_items_stopped:
  assumes "stopped r" and "key_text k = Some ks"
  shows "join_items E sep first krs = Some (s, None) \<Longrightarrow>
         join_items E sep first (krs @ (k, seq (emit t) r) # krs') =
           seq (emit (s @
             (if first \<and> list_all (\<lambda>b. key_text (fst b) = None) krs then [] else sep) @
             encode_str E ks @ enc_key_separator E @ t)) r"
proof (induction krs arbitrary: first s)
  case Nil
  then have "s = []" by (simp add: emit_def)
  then show ?case
    using assms by (simp add: seq_stopped stopped_seq_emit seq_emit_seq del: seq.simps)
next
  case (Cons kr krs)
  obtain k' r' where kr: "kr = (k', r')" by (cases kr)
  show ?case
  proof (cases "key_text k'")
    case None
    with Cons.prems have skip: "enc_skipkeys E" and rest: "join_items E sep first krs = Some (s, None)"
      by (auto simp: kr raise_def split: if_splits)
    show ?thesis
      using Cons.IH [OF rest] None skip by (simp add: kr)
  next
    case (Some ks')
    from Cons.prems obtain sr s2 where r': "r' = Some (sr, None)"
      and rest: "join_items E sep False krs = Some (s2, None)"
      and s: "s = (if first then [] else sep) @ encode_str E ks' @ enc_key_separator E @ sr @ s2"
      by (auto simp: kr Some seq_eq_ok emit_def)
    have "join_items E sep False (krs @ (k, seq (emit t) r) # krs') =
            seq (emit (s2 @ sep @ encode_str E ks @ enc_key_separator E @ t)) r"
      using Cons.IH [OF rest] by simp
    then show ?thesis
      by (simp add: kr Some r' s seq_ok_seq_emit seq_emit_seq del: seq.simps)
  qed
qed

text \<open>
  When the encoding of the object does not come to its end, the run is the text before
  the object and then what the encoding of the object does.
\<close>

lemma reach_outcome:
  assumes "reach n E M lvl v t i"
  shows "\<exists>n' M' lvl'. \<not> marked M' i \<and>
           (stopped (iterencode n' E M' lvl' (PObj i)) \<longrightarrow>
              iterencode n E M lvl v = seq (emit t) (iterencode n' E M' lvl' (PObj i)))"
  using assms
proof (induction rule: reach.induct)
  case (reach_here M i n E lvl)
  have "\<not> marked M i \<and>
        (stopped (iterencode n E M lvl (PObj i)) \<longrightarrow>
           iterencode n E M lvl (PObj i) = seq (emit []) (iterencode n E M lvl (PObj i)))"
    using reach_here by (simp only: seq_emit_Nil simp_thms)
  then show ?case by blast
next
  case (reach_conv M j E r n lvl t i)
  have "iterencode (Suc n) E M lvl (PObj j) = iterencode n E (mark M j) lvl r"
    using reach_conv.hyps by simp
  then show ?case using reach_conv.IH by simp
next
  case (reach_sub n E M lvl v t i j)
  then show ?case by simp
next
  case (reach_list E lvl n M ys s x t i zs)
  from reach_list.IH obtain n' M' lvl' where um: "\<not> marked M' i"
    and st: "stopped (iterencode n' E M' lvl' (PObj i)) \<Longrightarrow>
       iterencode n E M (inner_level E lvl) x = seq (emit t) (iterencode n' E M' lvl' (PObj i))"
    by blast
  let ?r = "iterencode n' E M' lvl' (PObj i)"
  let ?u = "s @ (if ys = [] then ''['' @ newline_indent E (inner_level E lvl)
             else enc_item_separator E @ newline_indent E (inner_level E lvl)) @ t"
  have "iterencode n E M lvl (PList (ys @ x # zs)) = seq (emit ?u) ?r" if "stopped ?r"
  proof -
    have "join_values (''['' @ newline_indent E (inner_level E lvl))
            (enc_item_separator E @ newline_indent E (inner_level E lvl))
            (map (iterencode n E M (inner_level E lvl)) (ys @ x # zs)) = seq (emit ?u) ?r"
      using join_values_stopped [OF that reach_list.hyps(1),
          of t "map (iterencode n E M (inner_level E lvl)) zs"] st [OF that]
      by simp
    then show ?thesis
      using that by (simp add: seq_stopped stopped_seq_emit del: seq.simps)
  qed
  with um show ?case by blast
next
  case (reach_tuple E lvl n M ys s x t i zs)
  from reach_tuple.IH obtain n' M' lvl' where um: "\<not> marked M' i"
    and st: "stopped (iterencode n' E M' lvl' (PObj i)) \<Longrightarrow>
       iterencode n E M (inner_level E lvl) x = seq (emit t) (iterencode n' E M' lvl' (PObj i))"
    by blast
  let ?r = "iterencode n' E M' lvl' (PObj i)"
  let ?u = "s @ (if ys = [] then ''['' @ newline_indent E (inner_level E lvl)
             else enc_item_separator E @ newline_indent E (inner_level E lvl)) @ t"
  have "iterencode n E M lvl (PTuple (ys @ x # zs)) = seq (emit ?u) ?r" if "stopped ?r"
  proof -
    have "join_values (''['' @ newline_indent E (inner_level E lvl))
            (enc_item_separator E @ newline_indent E (inner_level E lvl))
            (map (iterencode n E M (inner_level E lvl)) (ys @ x # zs)) = seq (emit ?u) ?r"
      using join_values_stopped [OF that reach_tuple.hyps(1),
          of t "map (iterencode n E M (inner_level E lvl)) zs"] st [OF that]
      by simp
    then show ?thesis
      using that by (simp add: seq_stopped stopped_seq_emit del: seq.simps)
  qed
  with um show ?case by blast
next
  case (reach_dict E kvs bs k x cs lvl n M s ks t i)
  from reach_dict.IH obtain n' M' lvl' where um: "\<not> marked M' i"
    and st: "stopped (iterencode n' E M' lvl' (PObj i)) \<Longrightarrow>
       iterencode n E M (inner_level E lvl) x = seq (emit t) (iterencode n' E M' lvl' (PObj i))"
    by blast
  let ?r = "iterencode n' E M' lvl' (PObj i)"
  let ?sep = "enc_item_separator E @ newline_indent E (inner_level E lvl)"
  let ?u = "s @ (if list_all (\<lambda>b. key_text (fst b) = None) bs then [] else ?sep) @
        encode_str E ks @ enc_key_separator E @ t"
  have ne: "kvs \<noteq> []"
    using reach_dict.hyps(1) by (auto simp: py_sorted_def split: if_splits)
  have "iterencode n E M lvl (PDict kvs) =
          seq (emit (''{'' @ newline_indent E (inner_level E lvl) @ ?u)) ?r" if "stopped ?r"
  proof -
    have "join_items E ?sep True
            (map (apsnd (iterencode n E M (inner_level E lvl))) (bs @ (k, x) # cs)) =
          seq (emit ?u) ?r"
      using join_items_stopped [OF that reach_dict.hyps(3) reach_dict.hyps(2),
          of t "map (apsnd (iterencode n E M (inner_level E lvl))) cs"] st [OF that]
      by (simp add: list_all_iff)
    then show ?thesis
      using that ne reach_dict.hyps(1)
      by (simp add: iterencode_PDict seq_stopped stopped_seq_emit seq_emit_seq
          del: iterencode.simps seq.simps)
  qed
  with um show ?case by blast
qed

text \<open>When the hook raises on the object, the run ends there with that exception.\<close>

lemma reach_raises:
  assumes "reach n E M lvl v t i" and "enc_default E (PObj i) = Inl e"
  shows "iterencode n E M lvl v = Some (t, Some e)"
proof -
  from reach_outcome [OF assms(1)] obtain n' M' lvl' where um: "\<not> marked M' i"
    and st: "stopped (iterencode n' E M' lvl' (PObj i)) \<Longrightarrow>
       iterencode n E M lvl v = seq (emit t) (iterencode n' E M' lvl' (PObj i))"
    by blast
  have r: "iterencode n' E M' lvl' (PObj i) = raise e"
    using um assms(2) by simp
  have "iterencode n E M lvl v = seq (emit t) (raise e)"
    using st unfolding r by simp
  then show ?thesis
    by (simp add: emit_def raise_def)
qed

text \<open>
  When the hook returns the object it was given, the run ends there on the marked
  object, or it has no end.
\<close>

lemma iterencode_self:
  assumes "enc_default E (PObj i) = Inr (PObj i)" and "\<not> marked M i"
  shows "iterencode n E M lvl (PObj i) = None \<or>
         iterencode n E M lvl (PObj i) = raise CircularReference"
proof (cases n)
  case 0
  then show ?thesis using assms by simp
next
  case (Suc k)
  show ?thesis
  proof (cases M)
    case None
    then show ?thesis
      using iterencode_self_unmarked [OF assms(1), of n lvl] by simp
  next
    case (Some ms)
    then show ?thesis
      using assms by (simp add: Suc marked_def mark_def)
  qed
qed

lemma reach_returned:
  assumes "reach n E M lvl v t i" and "enc_default E (PObj i) = Inr (PObj i)"
  shows "iterencode n E M lvl v = None \<or>
         iterencode n E M lvl v = Some (t, Some CircularReference)"
proof -
  from reach_outcome [OF assms(1)] obtain n' M' lvl' where um: "\<not> marked M' i"
    and st: "stopped (iterencode n' E M' lvl' (PObj i)) \<Longrightarrow>
       iterencode n E M lvl v = seq (emit t) (iterencode n' E M' lvl' (PObj i))"
    by blast
  from iterencode_self [OF assms(2) um, of n' lvl'] show ?thesis
  proof
    assume r: "iterencode n' E M' lvl' (PObj i) = None"
    have "iterencode n E M lvl v = seq (emit t) None"
      using st unfolding r by simp
    then show ?thesis by (simp add: emit_def)
  next
    assume r: "iterencode n' E M' lvl' (PObj i) = raise CircularReference"
    have "iterencode n E M lvl v = seq (emit t) (raise CircularReference)"
      using st unfolding r by simp
    then show ?thesis by (simp add: emit_def raise_def)
  qed
qed

text \<open>The rules for lists and dicts, with the position and the text given by equations.\<close>

lemma reach_listI:
  assumes "vs = ys @ x # zs"
    and "lvl' = inner_level E lvl"
    and "buf = ''['' @ newline_indent E lvl'"
    and "sep = enc_item_separator E @ newline_indent E lvl'"
    and "u = s @ (if ys = [] then buf else sep) @ t"
    and "join_values buf sep (map (iterencode n E M lvl') ys) = Some (s, None)"
    and "reach n E M lvl' x t i"
  shows "reach n E M lvl (PList vs) u i"
proof -
  from assms(6,7) have "reach n E M lvl (PList (ys @ x # zs))
       (s @ (if ys = [] then ''['' @ newline_indent E (inner_level E lvl)
             else enc_item_separator E @ newline_indent E (inner_level E lvl)) @ t) i"
    unfolding assms(2,3,4) by (rule reach_list)
  then show ?thesis
    unfolding assms(1,5) assms(3,4) assms(2) .
qed

lemma reach_dictI:
  assumes "(if enc_sort_keys E then py_sorted kvs else Inr kvs) = Inr (bs @ (k, x) # cs)"
    and "lvl' = inner_level E lvl"
    and "sep = enc_item_separator E @ newline_indent E lvl'"
    and "key_text k = Some ks"
    and "u = ''{'' @ newline_indent E lvl' @ s @
        (if list_all (\<lambda>b. key_text (fst b) = None) bs then [] else sep) @
        encode_str E ks @ enc_key_separator E @ t"
    and "join_items E sep True (map (apsnd (iterencode n E M lvl')) bs) = Some (s, None)"
    and "reach n E M lvl' x t i"
  shows "reach n E M lvl (PDict kvs) u i"
proof -
  from assms(1,6) assms(4,7) have "reach n E M lvl (PDict kvs)
       (''{'' @ newline_indent E (inner_level E lvl) @ s @
        (if list_all (\<lambda>b. key_text (fst b) = None) bs then []
         else enc_item_separator E @ newline_indent E (inner_level E lvl)) @
        encode_str E ks @ enc_key_separator E @ t) i"
    unfolding assms(2,3) by (rule reach_dict)
  then show ?thesis
    unfolding assms(5) assms(3) assms(2) .
qed

lemma no_kwargs_format:
  "newline_indent (make_encoder A c no_kwargs) l = []"
  "inner_level (make_encoder A c no_kwargs) l = l"
  "enc_item_separator (make_encoder A c no_kwargs) = '', ''"
  "enc_key_separator (make_encoder A c no_kwargs) = '': ''"
  "enc_sort_keys (make_encoder A c no_kwargs) = False"
  by (simp_all add: make_encoder_def no_kwargs_def newline_indent_def inner_level_def)

section \<open>A \<^verbatim>\<open>to_json\<close> that raises\<close>



section \<open>A \<^verbatim>\<open>to_json\<close> that is not callable\<close>

text \<open>
  C8. The hook asks only whether the attribute is there. When the encoder comes to an
  object whose \<^verbatim>\<open>to_json\<close> is there and not callable, wherever the object is in the value,
  the hook calls it, and the \<^verbatim>\<open>TypeError\<close> of that call, not the library's "not
  serializable" error, is what \<^verbatim>\<open>json_dumps\<close> and \<^verbatim>\<open>json_dump\<close> raise, the latter after
  writing the text that comes before the object. When the attribute is not there,
  nothing is called: the hook returns the object, and the run ends on the library's check
  for circular references or has no end. Both for every configuration that passes
  neither \<^verbatim>\<open>cls\<close> nor \<^verbatim>\<open>default\<close>.
\<close>

theorem to_json_not_callable:
  assumes "reached n A kw v t i" and "kw_cls kw = None" and "kw_default kw = None"
  shows "(A i = NonCallable \<longrightarrow>
            json_dumps n A kw v = Some (Inl NotCallable) \<and>
            json_dump n A kw v fp = Some (fp @ t, Some NotCallable)) \<and>
         (A i = Absent \<longrightarrow>
            (json_dumps n A kw v = None \<or>
             json_dumps n A kw v = Some (Inl CircularReference)) \<and>
            (json_dump n A kw v fp = None \<or>
             json_dump n A kw v fp = Some (fp @ t, Some CircularReference)))"
proof (intro conjI impI)
  let ?E = "make_encoder A JsonEncoder kw"
  have r: "reach n ?E (start_markers kw) 0 v t i"
    using assms(1) by (simp add: reached_def start_markers_def)
  {
    assume "A i = NonCallable"
    then have "enc_default ?E (PObj i) = Inl NotCallable"
      using assms(3) by (simp add: JsonEncoder_default_PObj)
    with r have run: "iterencode n ?E (start_markers kw) 0 v = Some (t, Some NotCallable)"
      by (rule reach_raises)
    show "json_dumps n A kw v = Some (Inl NotCallable)"
      using run assms(2) by (simp add: wrapper_unfold)
    show "json_dump n A kw v fp = Some (fp @ t, Some NotCallable)"
      using run assms(2) by (simp add: wrapper_unfold)
  }
  {
    assume "A i = Absent"
    then have "enc_default ?E (PObj i) = Inr (PObj i)"
      using assms(3) by (simp add: JsonEncoder_default_PObj)
    with r have run: "iterencode n ?E (start_markers kw) 0 v = None \<or>
        iterencode n ?E (start_markers kw) 0 v = Some (t, Some CircularReference)"
      by (rule reach_returned)
    show "json_dumps n A kw v = None \<or> json_dumps n A kw v = Some (Inl CircularReference)"
      using run assms(2) by (auto simp: wrapper_unfold)
    show "json_dump n A kw v fp = None \<or>
          json_dump n A kw v fp = Some (fp @ t, Some CircularReference)"
      using run assms(2) by (auto simp: wrapper_unfold)
  }
qed

text \<open>
  The \<^verbatim>\<open>to_json\<close> of object 2 is not callable: serializing \<^verbatim>\<open>{"a": [1, o2]}\<close> raises the
  error of the call with \<^verbatim>\<open>{"a": [1, \<close> written. Object 5 has no \<^verbatim>\<open>to_json\<close>: serializing
  \<^verbatim>\<open>[1, o5]\<close> ends on the check for circular references.
\<close>

theorem to_json_not_callable_witness:
  "reached 0 example_objects no_kwargs (PDict [(KStr ''a'', PList [PInt 1, PObj 2])])
     (''{'' @ [CHR 0x22] @ ''a'' @ [CHR 0x22] @ '': [1, '') 2 \<and>
   example_objects 2 = NonCallable \<and>
   kw_cls no_kwargs = None \<and> kw_default no_kwargs = None \<and>
   json_dumps 0 example_objects no_kwargs (PDict [(KStr ''a'', PList [PInt 1, PObj 2])]) =
     Some (Inl NotCallable) \<and>
   json_dump 0 example_objects no_kwargs (PDict [(KStr ''a'', PList [PInt 1, PObj 2])]) ''# '' =
     Some (''# '' @ (''{'' @ [CHR 0x22] @ ''a'' @ [CHR 0x22] @ '': [1, ''), Some NotCallable) \<and>
   reached 1 example_objects no_kwargs (PList [PInt 1, PObj 5]) ''[1, '' 5 \<and>
   example_objects 5 = Absent \<and>
   json_dumps 1 example_objects no_kwargs (PList [PInt 1, PObj 5]) =
     Some (Inl CircularReference) \<and>
   json_dump 1 example_objects no_kwargs (PList [PInt 1, PObj 5]) ''# '' =
     Some (''# '' @ ''[1, '', Some CircularReference)"
proof -
  let ?E = "make_encoder example_objects JsonEncoder no_kwargs"
  have s1: "reach 0 ?E (Some {}) 0 (PObj 2) [] 2"
    by (rule reach_here) (simp add: marked_def)
  have j2: "join_values ''['' '', '' (map (iterencode 0 ?E (Some {}) 0) [PInt 1]) =
      Some (''[1'', None)"
    by code_simp
  have s2: "reach 0 ?E (Some {}) 0 (PList [PInt 1, PObj 2]) ''[1, '' 2"
    by (rule reach_listI [where ys = "[PInt 1]" and zs = "[]" and lvl' = 0 and buf = "''[''"
          and sep = "'', ''", OF _ _ _ _ _ j2 s1])
      (simp_all add: no_kwargs_format)
  have j3: "join_items ?E '', '' True (map (apsnd (iterencode 0 ?E (Some {}) 0)) []) =
      Some ([], None)"
    by (simp add: emit_def)
  have k3: "encode_str ?E ''a'' = [CHR 0x22] @ ''a'' @ [CHR 0x22]"
    by code_simp
  have s3: "reach 0 ?E (Some {}) 0 (PDict [(KStr ''a'', PList [PInt 1, PObj 2])])
      (''{'' @ [CHR 0x22] @ ''a'' @ [CHR 0x22] @ '': [1, '') 2"
    by (rule reach_dictI [where bs = "[]" and k = "KStr ''a''" and cs = "[]" and lvl' = 0
          and sep = "'', ''" and ks = "''a''", OF _ _ _ _ _ j3 s2])
      (simp_all add: no_kwargs_format k3)
  have a: "reached 0 example_objects no_kwargs (PDict [(KStr ''a'', PList [PInt 1, PObj 2])])
     (''{'' @ [CHR 0x22] @ ''a'' @ [CHR 0x22] @ '': [1, '') 2"
    using s3 by (simp add: reached_def no_kwargs_def)
  have b: "example_objects 2 = NonCallable"
    by (simp add: example_objects_def)
  have c: "kw_cls no_kwargs = None" "kw_default no_kwargs = None"
    by (simp_all add: no_kwargs_def)
  note r = to_json_not_callable [OF a c, of "''# ''", THEN conjunct1, THEN mp, OF b]
  have t1: "reach 1 ?E (Some {}) 0 (PObj 5) [] 5"
    by (rule reach_here) (simp add: marked_def)
  have j4: "join_values ''['' '', '' (map (iterencode 1 ?E (Some {}) 0) [PInt 1]) =
      Some (''[1'', None)"
    by code_simp
  have t2: "reach 1 ?E (Some {}) 0 (PList [PInt 1, PObj 5]) ''[1, '' 5"
    by (rule reach_listI [where ys = "[PInt 1]" and zs = "[]" and lvl' = 0 and buf = "''[''"
          and sep = "'', ''", OF _ _ _ _ _ j4 t1])
      (simp_all add: no_kwargs_format)
  have a': "reached 1 example_objects no_kwargs (PList [PInt 1, PObj 5]) ''[1, '' 5"
    using t2 by (simp add: reached_def no_kwargs_def)
  have b': "example_objects 5 = Absent"
    by (simp add: example_objects_def)
  have d: "json_dumps 1 example_objects no_kwargs (PList [PInt 1, PObj 5]) =
     Some (Inl CircularReference)"
    by code_simp
  have d': "json_dump 1 example_objects no_kwargs (PList [PInt 1, PObj 5]) ''# '' =
     Some (''# '' @ ''[1, '', Some CircularReference)"
    by code_simp
  show ?thesis
    by (intro conjI a b c r [THEN conjunct1] r [THEN conjunct2] a' b' d d')
qed

end
